theory Spec2Isabelle
  imports Complex_Main "HOL-Library.AList"
begin

section \<open>Model scoring (pattern\_detection.js, detect)\<close>

text \<open>
  A HashToken is a string. The trained model \<open>data\<close> is the JSON object loaded from
  \<open>/data.json\<close>: a token is either absent or carries the two counters stored under the
  keys \<open>"0"\<close> (normal class) and \<open>"1"\<close> (anomaly class). The TokenMemo is a JavaScript
  object whose keys are the coordinate strings; \<open>Object.keys\<close> enumerates them in insertion
  order, so the memo is an association list in that order.

  Numbers: the counters are integers, and the quotient \<open>score["0"] / score["1"]\<close> is taken
  in exact arithmetic; binary64 rounding of the quotient is not modelled.
\<close>

type_synonym token = string

record counters =
  classNormalCount :: int
  classAnomalyCount :: int

type_synonym trained_model = "token \<Rightarrow> counters option"

type_synonym token_memo = "(string \<times> token list) list"

text \<open>The inner \<open>hashes.forEach\<close>: both running sums, starting from \<open>{"0": 0, "1": 0}\<close>.\<close>

definition score_step :: "trained_model \<Rightarrow> token \<Rightarrow> int \<times> int \<Rightarrow> int \<times> int" where
  "score_step data el score =
     (fst score + (case data el of Some c \<Rightarrow> classNormalCount c | None \<Rightarrow> 0),
      snd score + (case data el of Some c \<Rightarrow> classAnomalyCount c | None \<Rightarrow> 0))"

definition score_hashes :: "trained_model \<Rightarrow> token list \<Rightarrow> int \<times> int" where
  "score_hashes data hashes = fold (score_step data) hashes (0, 0)"

text \<open>The test \<open>score[1] == 0 || 0.9 < score["0"] / score["1"]\<close> and the pushed label.\<close>

definition label_of_score :: "int \<times> int \<Rightarrow> nat" where
  "label_of_score score =
     (if snd score = 0 \<or> (9 / 10 :: real) < real_of_int (fst score) / real_of_int (snd score)
      then 0 else 1)"

definition label_coordinate :: "trained_model \<Rightarrow> token list \<Rightarrow> nat" where
  "label_coordinate data hashes = label_of_score (score_hashes data hashes)"

text \<open>The outer \<open>keys.forEach\<close>: one label per key, in key order.\<close>

definition score_memo :: "trained_model \<Rightarrow> token_memo \<Rightarrow> nat list" where
  "score_memo data memo = map (\<lambda>entry. label_coordinate data (snd entry)) memo"



section \<open>Reshaping the labels (pattern\_detection.js, getgrid)\<close>

text \<open>
  \<open>xs.slice(a, b)\<close> for indices \<open>0 \<le> a\<close>: the elements from \<open>a\<close> up to, not including,
  \<open>b\<close>, cut at the end of the array.
\<close>

definition slice :: "nat \<Rightarrow> nat \<Rightarrow> 'a list \<Rightarrow> 'a list" where
  "slice a b xs = take (b - a) (drop a xs)"

text \<open>
  \<open>Math.floor(Math.sqrt(n))\<close> for an array length \<open>n\<close>, computed by search from \<open>n\<close>
  downwards; lemma \<open>floor_sqrt_real\<close> below relates it to the real square root.
\<close>

fun sqrt_search :: "nat \<Rightarrow> nat \<Rightarrow> nat" where
  "sqrt_search n 0 = 0"
| "sqrt_search n (Suc r) = (if Suc r * Suc r \<le> n then Suc r else sqrt_search n r)"

definition floor_sqrt :: "nat \<Rightarrow> nat" where
  "floor_sqrt n = sqrt_search n n"

text \<open>
  The loop \<open>for (let i = 0; i < temp.length; i += n) matrix.push(temp.slice(i, i + n))\<close>.
  With \<open>n = 0\<close> and a non-empty array it would not end, so the loop is a partial function
  and \<open>None\<close> stands for not returning. \<open>getgrid\<close> contains no \<open>throw\<close>.
\<close>

partial_function (option) getgrid_loop ::
  "nat \<Rightarrow> 'a list \<Rightarrow> nat \<Rightarrow> 'a list list \<Rightarrow> 'a list list option" where
  "getgrid_loop n temp i matrix =
     (if i < length temp
      then getgrid_loop n temp (i + n) (matrix @ [slice i (i + n) temp])
      else Some matrix)"

declare getgrid_loop.simps [code]

definition getgrid :: "'a list \<Rightarrow> 'a list list option" where
  "getgrid mat = getgrid_loop (floor_sqrt (length mat)) mat 0 []"

text \<open>A closed form of the loop's result, used in the proofs only.\<close>

function chunks :: "nat \<Rightarrow> 'a list \<Rightarrow> 'a list list" where
  "chunks n xs = (if n = 0 \<or> xs = [] then [] else take n xs # chunks n (drop n xs))"
  by pat_completeness auto
termination
  by (relation "measure (\<lambda>(n, xs). length xs)") auto

declare chunks.simps [simp del]

section \<open>Cluster analysis (pattern\_detection.js, findclusters)\<close>

text \<open>
  The grid is an array of rows of numbers. \<open>cell grid i j\<close> is the read \<open>grid[i][j]\<close> for a
  row index inside the grid: \<open>None\<close> is JavaScript's \<open>undefined\<close>, the result of reading a
  column the row does not have. \<open>set_cell\<close> is the write \<open>grid[i][j] = v\<close> to an existing cell.
\<close>

type_synonym grid = "nat list list"

definition cell :: "grid \<Rightarrow> int \<Rightarrow> int \<Rightarrow> nat option" where
  "cell grid i j =
     (if 0 \<le> i \<and> i < int (length grid) \<and> 0 \<le> j \<and> j < int (length (grid ! nat i))
      then Some (grid ! nat i ! nat j) else None)"

definition set_cell :: "grid \<Rightarrow> int \<Rightarrow> int \<Rightarrow> nat \<Rightarrow> grid" where
  "set_cell grid i j v = grid[nat i := (grid ! nat i)[nat j := v]]"

text \<open>
  A JavaScript number without its rounding: a value, or \<open>Infinity\<close> (a positive number
  divided by zero), or \<open>NaN\<close> (zero divided by zero). Negative infinity does not arise in
  the functions modelled here. The score is such a number with an integer value.
\<close>

datatype 'a jsnum = Num 'a | Infinity | NaN

fun js_add :: "'a::plus jsnum \<Rightarrow> 'a jsnum \<Rightarrow> 'a jsnum" where
  "js_add (Num a) (Num b) = Num (a + b)"
| "js_add NaN _ = NaN"
| "js_add _ NaN = NaN"
| "js_add _ _ = Infinity"

text \<open>\<open>Math.round\<close>: the nearest integer, a tie going up.\<close>

definition js_round :: "'a::floor_ceiling \<Rightarrow> int" where
  "js_round x = \<lfloor>x + 1 / 2\<rfloor>"

text \<open>
  \<open>Math.round(Math.sqrt(k))\<close> for a natural number \<open>k\<close>: the square root lies below
  \<open>r + 1/2\<close> exactly when \<open>k \<le> r * r + r\<close>. Lemma \<open>round_sqrt_real\<close> below relates it to
  the real square root.
\<close>

definition round_sqrt :: "nat \<Rightarrow> nat" where
  "round_sqrt k = (let r = floor_sqrt k in if r * r + r < k then r + 1 else r)"

text \<open>
  \<open>computedist(x, y)\<close> with the centre \<open>n = Math.round(rows / 2)\<close>,
  \<open>m = Math.round(cols / 2)\<close> of the enclosing call.
\<close>

definition computedist :: "nat \<Rightarrow> nat \<Rightarrow> int \<Rightarrow> int \<Rightarrow> nat" where
  "computedist rows cols x y =
     (let n = js_round (of_nat rows / 2 :: rat); m = js_round (of_nat cols / 2 :: rat)
      in round_sqrt (nat ((x - m)\<^sup>2 + (y - n)\<^sup>2)))"

text \<open>
  The term \<open>Math.round((islandSize * 0.4) / (computedist(j, i) * 0.6)) * 100\<close>. The
  decimal constants and the quotient are taken exactly; binary64 rounding of the two
  products and of the quotient is not modelled. There is no test of the distance in the
  source: a division by zero is JavaScript's, giving \<open>Infinity\<close>, or \<open>NaN\<close> for \<open>0 / 0\<close>.
\<close>

definition score_term :: "nat \<Rightarrow> nat \<Rightarrow> int jsnum" where
  "score_term islandSize distance =
     (if distance = 0 then (if islandSize = 0 then NaN else Infinity)
      else Num (js_round ((of_nat islandSize * (4 / 10)) / (of_nat distance * (6 / 10)) :: rat)
                  * 100))"

text \<open>
  The recursive flood fill \<open>dfs(i, j)\<close>. It writes to the grid, so the grid is passed in and
  returned together with the size. The recursion is not structural; it is a partial
  function, \<open>None\<close> standing for a call that does not return. The depth of the call stack
  is not bounded in the model.
\<close>

partial_function (option) dfs ::
  "nat \<Rightarrow> nat \<Rightarrow> grid \<Rightarrow> int \<Rightarrow> int \<Rightarrow> (nat \<times> grid) option" where
  "dfs rows cols grid i j =
     (if i < 0 \<or> i \<ge> int rows \<or> j < 0 \<or> j \<ge> int cols \<or> cell grid i j \<noteq> Some 1
      then Some (0, grid)
      else
        Option.bind (dfs rows cols (set_cell grid i j 0) (i + 1) j) (\<lambda>(down, g1).
        Option.bind (dfs rows cols g1 (i - 1) j) (\<lambda>(up, g2).
        Option.bind (dfs rows cols g2 i (j + 1)) (\<lambda>(right, g3).
        Option.bind (dfs rows cols g3 i (j - 1)) (\<lambda>(left, g4).
        Some (1 + down + up + right + left, g4))))))"

declare dfs.simps [code]

text \<open>The variables the two scanning loops update.\<close>

record scan_state =
  st_grid :: grid
  st_score :: "int jsnum"
  st_sizes :: "nat list"
  st_totalSize :: nat
  st_count :: nat

text \<open>The body of the inner loop at \<open>(i, j)\<close>.\<close>

definition visit :: "nat \<Rightarrow> nat \<Rightarrow> int \<Rightarrow> nat \<Rightarrow> nat \<Rightarrow> scan_state \<Rightarrow> scan_state option" where
  "visit rows cols minSize i j st =
     (if cell (st_grid st) (int i) (int j) = Some 1
      then Option.bind (dfs rows cols (st_grid st) (int i) (int j)) (\<lambda>(islandSize, g).
             Some (if int islandSize \<ge> minSize
                   then \<lparr>st_grid = g,
                         st_score = js_add (st_score st)
                           (score_term islandSize (computedist rows cols (int j) (int i))),
                         st_sizes = st_sizes st @ [islandSize],
                         st_totalSize = st_totalSize st + islandSize,
                         st_count = st_count st + 1\<rparr>
                   else st\<lparr>st_grid := g\<rparr>))
      else Some st)"

text \<open>A counted \<open>for\<close> loop whose body may not return.\<close>

fun for_each :: "('a \<Rightarrow> 's \<Rightarrow> 's option) \<Rightarrow> 'a list \<Rightarrow> 's \<Rightarrow> 's option" where
  "for_each body [] st = Some st"
| "for_each body (x # xs) st = Option.bind (body x st) (for_each body xs)"

text \<open>
  The object \<open>findclusters\<close> returns. The early return for an empty grid is
  \<open>{ count: 0, sizes: [], totalSize: 0 }\<close>: it has no \<open>score\<close> property, which is \<open>None\<close> here.
\<close>

record clusters =
  count :: nat
  sizes :: "nat list"
  totalSize :: nat
  score :: "int jsnum option"

definition findclusters :: "grid \<Rightarrow> int \<Rightarrow> clusters option" where
  "findclusters grid minSize =
     (if grid = [] then Some \<lparr>count = 0, sizes = [], totalSize = 0, score = None\<rparr>
      else
        let rows = length grid; cols = length (grid ! 0) in
        Option.bind
          (for_each (\<lambda>i. for_each (visit rows cols minSize i) [0..<cols]) [0..<rows]
             \<lparr>st_grid = grid, st_score = Num 0, st_sizes = [], st_totalSize = 0, st_count = 0\<rparr>)
          (\<lambda>st. Some \<lparr>count = st_count st, sizes = st_sizes st,
                       totalSize = st_totalSize st, score = Some (st_score st)\<rparr>))"

text \<open>
  The part of \<open>detect\<close> after the image analysis: score the memo, reshape, find the
  clusters of at least 7 cells, and return the score and the cluster count (the elapsed
  time is left out).
\<close>

definition detect_memo :: "trained_model \<Rightarrow> token_memo \<Rightarrow> (int jsnum option \<times> nat) option" where
  "detect_memo data memo =
     Option.bind (getgrid (score_memo data memo)) (\<lambda>matrix.
     Option.bind (findclusters matrix 7) (\<lambda>cls. Some (score cls, count cls)))"

subsection \<open>The specification's vocabulary: 4-connected components\<close>

text \<open>
  The 1-cells the scan can see, the four neighbours of a cell, the neighbour relation among
  a set of cells, and the connected component of a cell.
\<close>

definition ones :: "nat \<Rightarrow> nat \<Rightarrow> grid \<Rightarrow> (int \<times> int) set" where
  "ones rows cols grid =
     {(i, j). 0 \<le> i \<and> i < int rows \<and> 0 \<le> j \<and> j < int cols \<and> cell grid i j = Some 1}"

definition nbrs :: "int \<times> int \<Rightarrow> (int \<times> int) list" where
  "nbrs v = [(fst v + 1, snd v), (fst v - 1, snd v), (fst v, snd v + 1), (fst v, snd v - 1)]"

definition edges :: "(int \<times> int) set \<Rightarrow> ((int \<times> int) \<times> (int \<times> int)) set" where
  "edges S = {(a, b). a \<in> S \<and> b \<in> S \<and> b \<in> set (nbrs a)}"

definition component :: "(int \<times> int) set \<Rightarrow> int \<times> int \<Rightarrow> (int \<times> int) set" where
  "component S v = (if v \<in> S then (edges S)\<^sup>* `` {v} else {})"

text \<open>
  The cells in scanning order (rows top to bottom, columns left to right), and the
  discovery coordinates: the 1-cells that come first, in that order, in their component.
\<close>

definition scan_order :: "nat \<Rightarrow> nat \<Rightarrow> (nat \<times> nat) list" where
  "scan_order rows cols = concat (map (\<lambda>i. map (\<lambda>j. (i, j)) [0..<cols]) [0..<rows])"

definition pos :: "nat \<times> nat \<Rightarrow> int \<times> int" where
  "pos p = (int (fst p), int (snd p))"

definition row_major_le :: "int \<times> int \<Rightarrow> int \<times> int \<Rightarrow> bool" where
  "row_major_le a b = (fst a < fst b \<or> (fst a = fst b \<and> snd a \<le> snd b))"

definition first_of_component :: "(int \<times> int) set \<Rightarrow> nat \<times> nat \<Rightarrow> bool" where
  "first_of_component S p =
     (pos p \<in> S \<and> (\<forall>w \<in> component S (pos p). row_major_le (pos p) w))"

definition discovery_coordinates :: "grid \<Rightarrow> (nat \<times> nat) list" where
  "discovery_coordinates grid =
     (let rows = length grid; cols = length (grid ! 0) in
      filter (first_of_component (ones rows cols grid)) (scan_order rows cols))"

definition component_size :: "grid \<Rightarrow> nat \<times> nat \<Rightarrow> nat" where
  "component_size grid p =
     card (component (ones (length grid) (length (grid ! 0)) grid) (pos p))"

definition qualifying :: "grid \<Rightarrow> int \<Rightarrow> (nat \<times> nat) list" where
  "qualifying grid minSize =
     filter (\<lambda>p. int (component_size grid p) \<ge> minSize) (discovery_coordinates grid)"

definition component_term :: "grid \<Rightarrow> nat \<times> nat \<Rightarrow> int jsnum" where
  "component_term grid p =
     score_term (component_size grid p)
       (computedist (length grid) (length (grid ! 0)) (int (snd p)) (int (fst p)))"

text \<open>A set of cells is closed in \<open>S\<close> when no neighbour relation of \<open>S\<close> leaves it.\<close>

definition closed_in :: "(int \<times> int) set \<Rightarrow> (int \<times> int) set \<Rightarrow> bool" where
  "closed_in S U = (\<forall>a \<in> U. \<forall>b \<in> S. b \<in> set (nbrs a) \<longrightarrow> b \<in> U)"

text \<open>The scanning order as a strict order on coordinates.\<close>

definition scan_lt :: "nat \<times> nat \<Rightarrow> nat \<times> nat \<Rightarrow> bool" where
  "scan_lt a b = (fst a < fst b \<or> (fst a = fst b \<and> snd a < snd b))"

definition js_sum :: "int jsnum list \<Rightarrow> int jsnum" where
  "js_sum xs = foldl js_add (Num 0) xs"


section \<open>Block partitioning (utils.js, extractBlocks)\<close>

text \<open>
  What a JavaScript function throws: a \<open>TypeError\<close> for a property read on \<open>undefined\<close>,
  a \<open>RangeError\<close> when the call stack is exhausted, and an \<open>Error\<close> with its message.
\<close>

datatype js_error = TypeError | RangeError | Error string

text \<open>
  The innermost loop builds one block from the rows \<open>i, \<dots>, i + size - 1\<close> of the trimmed
  matrix; reading a row that does not exist gives \<open>undefined\<close>, and its \<open>slice\<close> throws.
\<close>

definition make_block :: "'a list list \<Rightarrow> nat \<Rightarrow> nat \<Rightarrow> nat \<Rightarrow> js_error + 'a list list" where
  "make_block trimmedMat size' i j =
     (if list_all (\<lambda>k. i + k < length trimmedMat) [0..<size']
      then Inr (map (\<lambda>k. slice j (j + size') (trimmedMat ! (i + k))) [0..<size'])
      else Inl TypeError)"

text \<open>
  The loops \<open>for (let j = 0; j < trimmedW; j += size)\<close> and
  \<open>for (let i = 0; i < trimmedH; i += size)\<close>. They are entered with a positive
  \<open>size\<close> only (see \<open>extractBlocks\<close>); the test \<open>0 < size\<close> makes the recursion total.
\<close>

function block_columns ::
  "'a list list \<Rightarrow> nat \<Rightarrow> nat \<Rightarrow> nat \<Rightarrow> nat \<Rightarrow> 'a list list list
     \<Rightarrow> js_error + 'a list list list" where
  "block_columns trimmedMat size' trimmedW i j blocks =
     (if 0 < size' \<and> j < trimmedW
      then (case make_block trimmedMat size' i j of
              Inl e \<Rightarrow> Inl e
            | Inr block \<Rightarrow> block_columns trimmedMat size' trimmedW i (j + size') (blocks @ [block]))
      else Inr blocks)"
  by pat_completeness auto
termination
  by (relation "measure (\<lambda>(trimmedMat, size', trimmedW, i, j, blocks). trimmedW - j)") auto

function block_rows ::
  "'a list list \<Rightarrow> nat \<Rightarrow> nat \<Rightarrow> nat \<Rightarrow> nat \<Rightarrow> 'a list list list
     \<Rightarrow> js_error + 'a list list list" where
  "block_rows trimmedMat size' trimmedH trimmedW i blocks =
     (if 0 < size' \<and> i < trimmedH
      then (case block_columns trimmedMat size' trimmedW i 0 blocks of
              Inl e \<Rightarrow> Inl e
            | Inr blocks' \<Rightarrow> block_rows trimmedMat size' trimmedH trimmedW (i + size') blocks')
      else Inr blocks)"
  by pat_completeness auto
termination
  by (relation "measure (\<lambda>(trimmedMat, size', trimmedH, trimmedW, i, blocks). trimmedH - i)") auto

declare block_columns.simps [simp del]
declare block_rows.simps [simp del]

text \<open>
  \<open>extractBlocks(mat, size)\<close>. On an empty matrix \<open>mat[0].length\<close> throws. For \<open>size = 0\<close>
  the remainders \<open>h % size\<close> and \<open>w % size\<close> are \<open>NaN\<close>, so are the trimmed bounds, the
  slices are empty and no loop test holds: the result is the empty list of blocks.
\<close>

definition extractBlocks :: "'a list list \<Rightarrow> nat \<Rightarrow> js_error + 'a list list list" where
  "extractBlocks mat size' =
     (if mat = [] then Inl TypeError
      else if size' = 0 then Inr []
      else
        let h = length mat;
            w = length (mat ! 0);
            trimmedH = h - h mod size';
            trimmedW = w - w mod size';
            trimmedMat = map (slice 0 trimmedW) (slice 0 trimmedH mat)
        in block_rows trimmedMat size' trimmedH trimmedW 0 [])"

section \<open>Spectral features (fft.js, I\_mat)\<close>

text \<open>
  Numbers are real numbers and complex samples are complex numbers: binary64 rounding is
  not modelled. An array read that yields \<open>undefined\<close> is modelled where it can happen, as
  the \<open>TypeError\<close> or the \<open>NaN\<close> it leads to.
\<close>

text \<open>The first error of a sequence of calls, or all their results.\<close>

fun map_err :: "('a \<Rightarrow> js_error + 'b) \<Rightarrow> 'a list \<Rightarrow> js_error + 'b list" where
  "map_err f [] = Inr []"
| "map_err f (x # xs) =
     (case f x of
        Inl e \<Rightarrow> Inl e
      | Inr y \<Rightarrow> (case map_err f xs of Inl e \<Rightarrow> Inl e | Inr ys \<Rightarrow> Inr (y # ys)))"

text \<open>
  The loop of \<open>fft1D\<close> that splits the input: \<open>even\<close> takes the elements at indices
  \<open>0, 2, 4, \<dots>\<close> and \<open>odd\<close> those at \<open>1, 3, 5, \<dots>\<close>.
\<close>

fun evens :: "'a list \<Rightarrow> 'a list" where
  "evens [] = []"
| "evens [x] = [x]"
| "evens (x # y # zs) = x # evens zs"

fun odds :: "'a list \<Rightarrow> 'a list" where
  "odds [] = []"
| "odds [x] = []"
| "odds (x # y # zs) = y # odds zs"

text \<open>\<open>new Complex(Math.cos(angle), Math.sin(angle))\<close> for \<open>angle = -2 * Math.PI * k / n\<close>.\<close>

definition exponent :: "nat \<Rightarrow> nat \<Rightarrow> complex" where
  "exponent n k = Complex (cos (- 2 * pi * real k / real n)) (sin (- 2 * pi * real k / real n))"

text \<open>
  The combining loop \<open>for (let k = 0; k < n / 2; k++)\<close>, over the list of its indices.
  \<open>exponent.multiply(oddTransformed[k])\<close> and \<open>evenTransformed[k].add(term)\<close> throw a
  \<open>TypeError\<close> when the element is missing. \<open>lo\<close> collects \<open>output[k]\<close> and \<open>hi\<close> collects
  \<open>output[k + n / 2]\<close>; for even \<open>n\<close> the array \<open>output\<close> is \<open>lo\<close> followed by \<open>hi\<close>. For
  odd \<open>n\<close> the last index is \<open>(n - 1) / 2\<close>, one beyond the odd half's transform, so
  the loop throws before \<open>output\<close> is returned (lemma \<open>fft1D_not_power_of_two\<close> below).
\<close>

fun butterflies ::
  "nat \<Rightarrow> complex list \<Rightarrow> complex list \<Rightarrow> nat list \<Rightarrow> complex list \<times> complex list
     \<Rightarrow> js_error + complex list \<times> complex list" where
  "butterflies n evenTransformed oddTransformed [] acc = Inr acc"
| "butterflies n evenTransformed oddTransformed (k # ks) acc =
     (if k < length oddTransformed \<and> k < length evenTransformed
      then let term = exponent n k * (oddTransformed ! k)
           in butterflies n evenTransformed oddTransformed ks
                (fst acc @ [evenTransformed ! k + term], snd acc @ [evenTransformed ! k - term])
      else Inl TypeError)"

lemma length_evens: "length (evens xs) = (length xs + 1) div 2"
  by (induction xs rule: evens.induct) simp_all

lemma length_odds: "length (odds xs) = length xs div 2"
  by (induction xs rule: odds.induct) simp_all

text \<open>
  \<open>fft1D\<close>. On the empty array neither test of the source stops the recursion: it calls
  itself on the empty array until the stack is exhausted, a \<open>RangeError\<close>.
\<close>

function fft1D :: "complex list \<Rightarrow> js_error + complex list" where
  "fft1D input =
     (if length input = 1 then Inr [input ! 0]
      else if length input = 0 then Inl RangeError
      else
        (case fft1D (evens input) of
           Inl e \<Rightarrow> Inl e
         | Inr evenTransformed \<Rightarrow>
             (case fft1D (odds input) of
                Inl e \<Rightarrow> Inl e
              | Inr oddTransformed \<Rightarrow>
                  (case butterflies (length input) evenTransformed oddTransformed
                          [0..<(length input + 1) div 2] ([], []) of
                     Inl e \<Rightarrow> Inl e
                   | Inr out \<Rightarrow> Inr (fst out @ snd out)))))"
  by pat_completeness auto
termination
proof (relation "measure length")
  show "wf (measure length)" by simp
next
  fix input :: "complex list"
  assume "length input \<noteq> 1" "length input \<noteq> 0"
  then have "(length input + 1) div 2 < length input" by arith
  then show "(evens input, input) \<in> measure length" by (simp add: length_evens)
next
  fix input :: "complex list"
  assume "length input \<noteq> 0"
  then have "length input div 2 < length input" by arith
  then show "(odds input, input) \<in> measure length" by (simp add: length_odds)
qed

declare fft1D.simps [simp del]

text \<open>
  \<open>fft2D\<close>: the rows, then the columns. \<open>matrix[0].length\<close> throws on an empty matrix. A
  column takes \<open>rowTransformed[i][j]\<close> from every row; where a row is too short the element
  is \<open>undefined\<close>, and \<open>fft1D\<close> of a non-empty column with such an element throws a
  \<open>TypeError\<close> when it reads it.
\<close>

definition fft_column :: "complex list list \<Rightarrow> nat \<Rightarrow> js_error + complex list" where
  "fft_column rowTransformed j =
     (if list_all (\<lambda>row. j < length row) rowTransformed
      then fft1D (map (\<lambda>row. row ! j) rowTransformed)
      else Inl TypeError)"

definition fft2D :: "real list list \<Rightarrow> js_error + complex list list" where
  "fft2D matrix =
     (if matrix = [] then Inl TypeError
      else
        let rows = length matrix; cols = length (matrix ! 0) in
        (case map_err (\<lambda>row. fft1D (map (\<lambda>val. Complex val 0) row)) matrix of
           Inl e \<Rightarrow> Inl e
         | Inr rowTransformed \<Rightarrow>
             (case map_err (fft_column rowTransformed) [0..<cols] of
                Inl e \<Rightarrow> Inl e
              | Inr colTransformed \<Rightarrow>
                  Inr (if cols = 0 then []
                       else map (\<lambda>i. map (\<lambda>j. colTransformed ! j ! i) [0..<cols]) [0..<rows]))))"

text \<open>
  \<open>fftShift\<close>: every cell \<open>(i, j)\<close> is written to \<open>((i + halfRows) % rows, (j + halfCols) % cols)\<close>
  of a fresh \<open>rows\<close>-by-\<open>cols\<close> array, whose cells are empty (\<open>None\<close>) until written. It is
  applied to the result of \<open>fft2D\<close>, whose rows all have \<open>cols\<close> cells.
\<close>

definition shift_cell ::
  "complex list list \<Rightarrow> nat \<Rightarrow> nat \<Rightarrow> nat \<times> nat \<Rightarrow> complex option list list
     \<Rightarrow> complex option list list" where
  "shift_cell matrix rows cols p shifted =
     (let newI = (fst p + rows div 2) mod rows;
          newJ = (snd p + cols div 2) mod cols
      in shifted[newI := (shifted ! newI)[newJ := Some (matrix ! fst p ! snd p)]])"

definition fftShift :: "complex list list \<Rightarrow> js_error + complex option list list" where
  "fftShift matrix =
     (if matrix = [] then Inl TypeError
      else
        let rows = length matrix; cols = length (matrix ! 0) in
        Inr (fold (shift_cell matrix rows cols)
               (concat (map (\<lambda>i. map (\<lambda>j. (i, j)) [0..<cols]) [0..<rows]))
               (replicate rows (replicate cols None))))"

text \<open>The distance of every cell of a block from the block's centre, and the three masks.\<close>

definition distFromCenter :: "nat \<Rightarrow> real list list" where
  "distFromCenter blockSize =
     map (\<lambda>y. map (\<lambda>x. sqrt ((real x - real blockSize / 2)\<^sup>2 + (real y - real blockSize / 2)\<^sup>2))
                 [0..<blockSize])
       [0..<blockSize]"

definition lowFreqMask :: "nat \<Rightarrow> bool list list" where
  "lowFreqMask blockSize = map (map (\<lambda>d. d \<le> real blockSize / 4)) (distFromCenter blockSize)"

definition midfreq :: "nat \<Rightarrow> bool list list" where
  "midfreq blockSize =
     map (map (\<lambda>d. d < real blockSize / 4 \<and> d > real blockSize / (25 / 10)))
       (distFromCenter blockSize)"

definition highFreqMask :: "nat \<Rightarrow> bool list list" where
  "highFreqMask blockSize =
     map (map (\<lambda>d. d > real blockSize / (25 / 10))) (distFromCenter blockSize)"

text \<open>
  The read \<open>logMagnitude[y][x]\<close> of the energy loops: a missing row makes the read throw,
  a missing or empty cell gives \<open>undefined\<close>, which added to an energy makes it \<open>NaN\<close>.
\<close>

definition read_magnitude :: "real option list list \<Rightarrow> nat \<Rightarrow> nat \<Rightarrow> js_error + real jsnum" where
  "read_magnitude logMagnitude y x =
     (if y < length logMagnitude
      then Inr (if x < length (logMagnitude ! y)
                then (case logMagnitude ! y ! x of Some v \<Rightarrow> Num v | None \<Rightarrow> NaN)
                else NaN)
      else Inl TypeError)"

text \<open>The body of the energy loops at \<open>(y, x)\<close>; the pair is \<open>(lowEnergy, highEnergy)\<close>.\<close>

definition add_energy ::
  "nat \<Rightarrow> real option list list \<Rightarrow> nat \<times> nat \<Rightarrow> real jsnum \<times> real jsnum
     \<Rightarrow> js_error + real jsnum \<times> real jsnum" where
  "add_energy blockSize logMagnitude p energy =
     (if lowFreqMask blockSize ! fst p ! snd p
      then (case read_magnitude logMagnitude (fst p) (snd p) of
              Inl e \<Rightarrow> Inl e
            | Inr v \<Rightarrow> Inr (js_add (fst energy) v, snd energy))
      else if highFreqMask blockSize ! fst p ! snd p
      then (case read_magnitude logMagnitude (fst p) (snd p) of
              Inl e \<Rightarrow> Inl e
            | Inr v \<Rightarrow> Inr (fst energy, js_add (snd energy) v))
      else Inr energy)"

fun for_each_err :: "('a \<Rightarrow> 's \<Rightarrow> js_error + 's) \<Rightarrow> 'a list \<Rightarrow> 's \<Rightarrow> js_error + 's" where
  "for_each_err body [] st = Inr st"
| "for_each_err body (x # xs) st =
     (case body x st of Inl e \<Rightarrow> Inl e | Inr st' \<Rightarrow> for_each_err body xs st')"

definition energies :: "nat \<Rightarrow> real option list list \<Rightarrow> js_error + real jsnum \<times> real jsnum" where
  "energies blockSize logMagnitude =
     for_each_err (add_energy blockSize logMagnitude)
       (concat (map (\<lambda>y. map (\<lambda>x. (y, x)) [0..<blockSize]) [0..<blockSize]))
       (Num 0, Num 0)"

text \<open>
  \<open>Math.round(e / binsize) * binsize\<close>. For \<open>binsize = 0\<close> the quotient is infinite or
  \<open>NaN\<close> and the product with 0 is \<open>NaN\<close>.
\<close>

fun quantize :: "nat \<Rightarrow> real jsnum \<Rightarrow> real jsnum" where
  "quantize binsize (Num v) =
     (if binsize = 0 then NaN else Num (of_int (js_round (v / real binsize)) * real binsize))"
| "quantize binsize Infinity = (if binsize = 0 then NaN else Infinity)"
| "quantize binsize NaN = NaN"

text \<open>
  The number JavaScript makes of the array \<open>midfreq\<close> in \<open>midfreq / binsize\<close>: the array is
  turned into a string, its elements joined by commas, and the string into a number. The
  string is empty, giving 0, for \<open>[]\<close> and \<open>[[]]\<close>; any other array of arrays of booleans
  gives a string that is no numeral, hence \<open>NaN\<close>.
\<close>

definition mask_to_number :: "bool list list \<Rightarrow> real jsnum" where
  "mask_to_number m = (if m = [] \<or> m = [[]] then Num 0 else NaN)"

text \<open>
  The body of the main loop for one block. The mean of an empty block is \<open>0 / 0\<close> in the
  source; it is then used for no element.
\<close>

definition block_features ::
  "nat \<Rightarrow> nat \<Rightarrow> nat \<Rightarrow> real list list \<Rightarrow> js_error + real jsnum list" where
  "block_features binsize ids blockSize mat =
     (let flatMat = concat mat;
          mean = sum_list flatMat / real (length flatMat);
          std = sqrt (sum_list (map (\<lambda>val. (val - mean)\<^sup>2) flatMat) / real (length flatMat));
          matNormalized = map (map (\<lambda>val. (val - mean) / (std + 1 / 10 ^ 10))) mat
      in case fft2D matNormalized of
           Inl e \<Rightarrow> Inl e
         | Inr n_I \<Rightarrow>
             (case fftShift n_I of
                Inl e \<Rightarrow> Inl e
              | Inr n_I_shifted \<Rightarrow>
                  (let logMagnitude = map (map (map_option (\<lambda>c. ln (1 + cmod c)))) n_I_shifted
                   in case energies blockSize logMagnitude of
                        Inl e \<Rightarrow> Inl e
                      | Inr energy \<Rightarrow>
                          Inr ([quantize binsize (snd energy), quantize binsize (fst energy)]
                               @ (if ids > 2
                                  then [quantize binsize (mask_to_number (midfreq blockSize))]
                                  else [])))))"

text \<open>
  \<open>I_mat(matrices, binsize, ids, blockSize)\<close>. The only test is that the number of blocks
  is a perfect square; \<open>blockSize\<close> is used for the masks and the energy loops only.
\<close>

definition I_mat ::
  "real list list list \<Rightarrow> nat \<Rightarrow> nat \<Rightarrow> nat \<Rightarrow> js_error + real jsnum list list list" where
  "I_mat matrices binsize ids blockSize =
     (let n = floor_sqrt (length matrices) in
      if n * n \<noteq> length matrices
      then Inl (Error ''Number of matrices must form a perfect square'')
      else
        (case map_err (block_features binsize ids blockSize) matrices of
           Inl e \<Rightarrow> Inl e
         | Inr features \<Rightarrow>
             Inr (map (\<lambda>row. map (\<lambda>col. features ! (row * n + col)) [0..<n]) [0..<n])))"

section \<open>Hash generation (utils.js, hash)\<close>

text \<open>
  The decimal numeral JavaScript writes for a loop index or a small integer inside a
  template string; the digit \<open>d\<close> is the character with code \<open>48 + d\<close>.
\<close>

definition digit_char :: "nat \<Rightarrow> char" where
  "digit_char d = char_of (48 + d)"

function show_nat :: "nat \<Rightarrow> string" where
  "show_nat n = (if n < 10 then [digit_char n] else show_nat (n div 10) @ [digit_char (n mod 10)])"
  by pat_completeness auto
termination
  by (relation "measure id") auto

declare show_nat.simps [simp del]

definition show_int :: "int \<Rightarrow> string" where
  "show_int z = (if z < 0 then ''-'' @ show_nat (nat (- z)) else show_nat (nat z))"

text \<open>The key \<open>`(${i},${j})`\<close> of the memo.\<close>

definition coord :: "nat \<Rightarrow> nat \<Rightarrow> string" where
  "coord i j = ''('' @ show_nat i @ '','' @ show_nat j @ '')''"

text \<open>
  A feature vector is an array of numbers of some type \<open>'f\<close>; how JavaScript writes such a
  number in a template string is the parameter \<open>str\<close>. \<open>element_str str v k\<close> is
  \<open>`${v[k]}`\<close>: an element the array does not have is written \<open>undefined\<close>.
\<close>

definition element_str :: "('f \<Rightarrow> string) \<Rightarrow> 'f list \<Rightarrow> nat \<Rightarrow> string" where
  "element_str str v k = (if k < length v then str (v ! k) else ''undefined'')"

text \<open>\<open>blocks[i][j]\<close> for a row index inside the grid; \<open>None\<close> is \<open>undefined\<close>.\<close>

definition block_at :: "'a list list \<Rightarrow> nat \<Rightarrow> nat \<Rightarrow> 'a option" where
  "block_at blocks i j =
     (if i < length blocks \<and> j < length (blocks ! i) then Some (blocks ! i ! j) else None)"

text \<open>The quadrant code \<open>rel\<close>, from the signs of \<open>i - r\<close> and \<open>j - r\<close> with
  \<open>r = blocks.length / 2\<close>.\<close>

definition quadrant :: "nat \<Rightarrow> nat \<Rightarrow> nat \<Rightarrow> int" where
  "quadrant rows i j =
     (let r = (of_nat rows / 2 :: rat) in
      if of_nat i - r \<ge> 0
      then (if of_nat j - r \<ge> 0 then - 1 else 0)
      else (if of_nat j - r \<ge> 0 then 1 else 2))"

text \<open>The list \<open>directions\<close>: \<open>(di, dj, dir)\<close>.\<close>

definition directions :: "(int \<times> int \<times> nat) list" where
  "directions =
     [(- 1, - 1, 0), (- 1, 0, 0), (- 1, 1, 0), (0, - 1, 2), (0, 1, 4),
      (1, - 1, 1), (1, 0, 1), (1, 1, 1)]"

text \<open>The test \<open>ni >= 0 && ni < rows && nj >= 0 && nj < cols\<close> for a direction.\<close>

definition in_bounds :: "nat \<Rightarrow> nat \<Rightarrow> nat \<Rightarrow> nat \<Rightarrow> int \<times> int \<times> nat \<Rightarrow> bool" where
  "in_bounds rows cols i j d =
     (int i + fst d \<ge> 0 \<and> int i + fst d < int rows
      \<and> int j + fst (snd d) \<ge> 0 \<and> int j + fst (snd d) < int cols)"

text \<open>The token \<open>hsh\<close>, in basic and in extended mode.\<close>

definition make_token ::
  "('f \<Rightarrow> string) \<Rightarrow> bool \<Rightarrow> 'f list \<Rightarrow> 'f list \<Rightarrow> int \<Rightarrow> nat \<Rightarrow> token" where
  "make_token str ext block neighbor rel dir =
     (if ext
      then element_str str block 0 @ ''_'' @ element_str str block 1 @ ''_''
           @ element_str str neighbor 0 @ ''_'' @ element_str str neighbor 1 @ ''_''
           @ show_int rel @ ''_'' @ show_nat dir
      else element_str str block 0 @ ''_'' @ element_str str block 1 @ ''_''
           @ element_str str neighbor 0 @ ''_'' @ element_str str neighbor 1 @ ''_''
           @ show_nat dir)"

text \<open>What \<open>hash\<close> builds and returns: \<open>{memo: memo, hashes: hashes}\<close>.\<close>

record hash_result =
  r_memo :: token_memo
  r_hashes :: "token list"

text \<open>
  The body of the loop over the directions. Reading \<open>block[0]\<close> or \<open>neighbor[0]\<close> of an
  \<open>undefined\<close> block throws. \<open>memo[coord].push(hsh)\<close> appends to the entry made at the start
  of the cell.
\<close>

definition visit_direction ::
  "('f \<Rightarrow> string) \<Rightarrow> bool \<Rightarrow> 'f list list list \<Rightarrow> nat \<Rightarrow> nat \<Rightarrow> nat \<Rightarrow> nat
     \<Rightarrow> int \<times> int \<times> nat \<Rightarrow> hash_result \<Rightarrow> js_error + hash_result" where
  "visit_direction str ext blocks rows cols i j d st =
     (if in_bounds rows cols i j d
      then (case block_at blocks i j of
              None \<Rightarrow> Inl TypeError
            | Some block \<Rightarrow>
                (case block_at blocks (nat (int i + fst d)) (nat (int j + fst (snd d))) of
                   None \<Rightarrow> Inl TypeError
                 | Some neighbor \<Rightarrow>
                     (let hsh = make_token str ext block neighbor (quadrant rows i j) (snd (snd d))
                      in Inr \<lparr>r_memo = AList.map_entry (coord i j) (\<lambda>ts. ts @ [hsh]) (r_memo st),
                              r_hashes = r_hashes st @ [hsh]\<rparr>)))
      else Inr st)"

text \<open>The body of the inner loop: \<open>memo[coord] = []\<close>, then the directions.\<close>

definition hash_cell ::
  "('f \<Rightarrow> string) \<Rightarrow> bool \<Rightarrow> 'f list list list \<Rightarrow> nat \<Rightarrow> nat \<Rightarrow> nat \<Rightarrow> nat
     \<Rightarrow> hash_result \<Rightarrow> js_error + hash_result" where
  "hash_cell str ext blocks rows cols i j st =
     for_each_err (visit_direction str ext blocks rows cols i j) directions
       (st\<lparr>r_memo := AList.update (coord i j) [] (r_memo st)\<rparr>)"

definition hash :: "('f \<Rightarrow> string) \<Rightarrow> 'f list list list \<Rightarrow> bool \<Rightarrow> js_error + hash_result" where
  "hash str blocks ext =
     (let rows = length blocks;
          cols = (if blocks = [] then 0 else length (blocks ! 0))
      in for_each_err (\<lambda>i. for_each_err (hash_cell str ext blocks rows cols i) [0..<cols])
           [0..<rows] \<lparr>r_memo = [], r_hashes = []\<rparr>)"

text \<open>The tokens of one cell, in the order of the directions.\<close>

definition cell_tokens ::
  "('f \<Rightarrow> string) \<Rightarrow> bool \<Rightarrow> 'f list list list \<Rightarrow> nat \<Rightarrow> nat \<Rightarrow> nat \<Rightarrow> nat
     \<Rightarrow> (int \<times> int \<times> nat) list \<Rightarrow> token list" where
  "cell_tokens str ext blocks rows cols i j ds =
     map (\<lambda>d. make_token str ext (blocks ! i ! j)
                 (blocks ! nat (int i + fst d) ! nat (int j + fst (snd d)))
                 (quadrant rows i j) (snd (snd d)))
       (filter (in_bounds rows cols i j) ds)"

text \<open>Reading a decimal numeral back, used to show that the keys are distinct.\<close>

definition digit_val :: "char \<Rightarrow> nat" where
  "digit_val c = of_char c - 48"

definition read_nat :: "string \<Rightarrow> nat" where
  "read_nat s = foldl (\<lambda>a c. 10 * a + digit_val c) 0 s"

section \<open>Properties of the model scorer\<close>






section \<open>Properties of getgrid\<close>

lemma sqrt_search_le: "sqrt_search n b * sqrt_search n b \<le> n"
  by (induction b) auto

lemma sqrt_search_max: "r \<le> b \<Longrightarrow> r * r \<le> n \<Longrightarrow> r \<le> sqrt_search n b"
proof (induction b)
  case 0
  then show ?case by simp
next
  case (Suc b)
  show ?case
  proof (cases "Suc b * Suc b \<le> n")
    case True
    then show ?thesis using Suc.prems by simp
  next
    case False
    then have "r \<noteq> Suc b" using Suc.prems by auto
    then have "r \<le> b" using Suc.prems by simp
    then show ?thesis using False Suc by simp
  qed
qed

lemma floor_sqrt_bounds:
  "floor_sqrt n * floor_sqrt n \<le> n \<and> n < Suc (floor_sqrt n) * Suc (floor_sqrt n)"
proof -
  let ?r = "floor_sqrt n"
  have le: "?r * ?r \<le> n" by (simp add: floor_sqrt_def sqrt_search_le)
  have "\<not> Suc ?r * Suc ?r \<le> n"
  proof
    assume a: "Suc ?r * Suc ?r \<le> n"
    have "Suc ?r \<le> Suc ?r * Suc ?r" by simp
    then have "Suc ?r \<le> n" using a by linarith
    then have "Suc ?r \<le> sqrt_search n n" using a by (rule sqrt_search_max)
    then show False by (simp add: floor_sqrt_def)
  qed
  then show ?thesis using le by simp
qed

lemma floor_sqrt_unique: "r * r \<le> n \<Longrightarrow> n < Suc r * Suc r \<Longrightarrow> floor_sqrt n = r"
proof -
  assume a: "r * r \<le> n" "n < Suc r * Suc r"
  let ?s = "floor_sqrt n"
  have b: "?s * ?s \<le> n" "n < Suc ?s * Suc ?s" using floor_sqrt_bounds by auto
  have "\<not> ?s < r"
  proof
    assume "?s < r"
    then have "Suc ?s \<le> r" by simp
    then have "Suc ?s * Suc ?s \<le> r * r" by (intro mult_le_mono)
    then show False using a b by linarith
  qed
  moreover have "\<not> r < ?s"
  proof
    assume "r < ?s"
    then have "Suc r \<le> ?s" by simp
    then have "Suc r * Suc r \<le> ?s * ?s" by (intro mult_le_mono)
    then show False using a b by linarith
  qed
  ultimately show ?thesis by simp
qed

lemma floor_sqrt_square [simp]: "floor_sqrt (n * n) = n"
  by (rule floor_sqrt_unique) simp_all

lemma floor_sqrt_real: "int (floor_sqrt n) = \<lfloor>sqrt (real n)\<rfloor>"
proof -
  let ?r = "floor_sqrt n"
  have b: "?r * ?r \<le> n" "n < Suc ?r * Suc ?r" using floor_sqrt_bounds by auto
  have "real (?r * ?r) \<le> real n" using b(1) by (simp only: of_nat_le_iff)
  then have "(real ?r)\<^sup>2 \<le> real n" by (simp add: power2_eq_square)
  then have lo: "real ?r \<le> sqrt (real n)" by (rule real_le_rsqrt)
  have "real n < real (Suc ?r * Suc ?r)" using b(2) by (simp only: of_nat_less_iff)
  then have "real n < (real ?r + 1)\<^sup>2" by (simp add: power2_eq_square algebra_simps)
  then have hi: "sqrt (real n) < real ?r + 1" by (intro real_less_lsqrt) simp_all
  show ?thesis using lo hi by (intro floor_unique [symmetric]) simp_all
qed

lemma floor_sqrt_pos: "0 < n \<Longrightarrow> 0 < floor_sqrt n"
proof -
  assume "0 < n"
  then have "Suc 0 * Suc 0 \<le> n" by simp
  then have "Suc 0 \<le> sqrt_search n n" using \<open>0 < n\<close> by (intro sqrt_search_max) simp_all
  then show ?thesis by (simp add: floor_sqrt_def)
qed

lemma getgrid_loop_chunks:
  "0 < n \<Longrightarrow> getgrid_loop n temp i matrix = Some (matrix @ chunks n (drop i temp))"
proof (induction "length temp - i" arbitrary: i matrix rule: less_induct)
  case less
  show ?case
  proof (cases "i < length temp")
    case True
    have "getgrid_loop n temp i matrix =
            getgrid_loop n temp (i + n) (matrix @ [slice i (i + n) temp])"
      using True by (subst getgrid_loop.simps) simp
    also have "\<dots> = Some ((matrix @ [slice i (i + n) temp]) @ chunks n (drop (i + n) temp))"
      using True less.prems by (intro less.hyps) auto
    also have "\<dots> = Some (matrix @ chunks n (drop i temp))"
      using True less.prems
      by (subst (2) chunks.simps) (simp add: slice_def add.commute)
    finally show ?thesis .
  next
    case False
    then show ?thesis
      by (subst getgrid_loop.simps, subst chunks.simps) simp
  qed
qed

lemma getgrid_chunks: "getgrid mat = Some (chunks (floor_sqrt (length mat)) mat)"
proof (cases "mat = []")
  case True
  then show ?thesis
    by (simp add: getgrid_def, subst getgrid_loop.simps, subst chunks.simps) simp
next
  case False
  then have "0 < floor_sqrt (length mat)" by (intro floor_sqrt_pos) simp
  then show ?thesis by (simp add: getgrid_def getgrid_loop_chunks)
qed

lemma concat_chunks: "0 < n \<Longrightarrow> concat (chunks n xs) = xs"
proof (induction n xs rule: chunks.induct)
  case (1 n xs)
  then show ?case by (subst chunks.simps) auto
qed

lemma chunks_rows: "row \<in> set (chunks n xs) \<Longrightarrow> row \<noteq> [] \<and> length row \<le> n"
proof (induction n xs rule: chunks.induct)
  case (1 n xs)
  show ?case
  proof (cases "n = 0 \<or> xs = []")
    case True
    then show ?thesis using "1.prems" by (subst (asm) chunks.simps) simp
  next
    case False
    then have "row = take n xs \<or> row \<in> set (chunks n (drop n xs))"
      using "1.prems" by (subst (asm) chunks.simps) simp
    then show ?thesis
    proof
      assume "row = take n xs"
      then show ?thesis using False by simp
    next
      assume "row \<in> set (chunks n (drop n xs))"
      then show ?thesis using False "1.IH" by simp
    qed
  qed
qed

lemma chunks_exact:
  "0 < n \<Longrightarrow> length xs = m * n \<Longrightarrow>
   length (chunks n xs) = m \<and> (\<forall>r < m. chunks n xs ! r = take n (drop (r * n) xs))"
proof (induction m arbitrary: xs)
  case 0
  then show ?case by (subst chunks.simps) simp
next
  case (Suc m)
  have ne: "xs \<noteq> []" using Suc.prems by auto
  have len: "length (drop n xs) = m * n" using Suc.prems by simp
  have IH: "length (chunks n (drop n xs)) = m"
     "\<And>r. r < m \<Longrightarrow> chunks n (drop n xs) ! r = take n (drop (r * n) (drop n xs))"
    using Suc.IH [OF Suc.prems(1) len] by auto
  have unf: "chunks n xs = take n xs # chunks n (drop n xs)"
    using ne Suc.prems(1) by (subst chunks.simps) simp
  show ?case
  proof (intro conjI allI impI)
    show "length (chunks n xs) = Suc m" by (simp add: unf IH)
  next
    fix r assume "r < Suc m"
    show "chunks n xs ! r = take n (drop (r * n) xs)"
    proof (cases r)
      case 0
      then show ?thesis by (simp add: unf)
    next
      case (Suc r')
      then have "r' < m" using \<open>r < Suc m\<close> by simp
      then show ?thesis using Suc by (simp add: unf IH add.commute)
    qed
  qed
qed


lemma chunks_Nil [simp]: "chunks n [] = []"
  by (subst chunks.simps) simp

lemma chunks_more_rows:
  "0 < n \<Longrightarrow> m * n < length xs \<Longrightarrow> m < length (chunks n xs)"
proof (induction m arbitrary: xs)
  case 0
  then have "xs \<noteq> []" by auto
  then show ?case using "0.prems" by (subst chunks.simps) simp
next
  case (Suc m)
  then have ne: "xs \<noteq> []" by auto
  have unf: "chunks n xs = take n xs # chunks n (drop n xs)"
    using ne Suc.prems(1) by (subst chunks.simps) simp
  have "m * n < length (drop n xs)" using Suc.prems(2) by simp
  then have "m < length (chunks n (drop n xs))"
    using Suc.prems(1) by (intro Suc.IH)
  then show ?case by (simp add: unf)
qed

lemma chunks_nth:
  "0 < n \<Longrightarrow> r < length (chunks n xs) \<Longrightarrow> chunks n xs ! r = take n (drop (r * n) xs)"
proof (induction r arbitrary: xs)
  case 0
  then have "xs \<noteq> []" by auto
  then show ?case using "0.prems" by (subst chunks.simps) simp
next
  case (Suc r)
  then have ne: "xs \<noteq> []" by auto
  have unf: "chunks n xs = take n xs # chunks n (drop n xs)"
    using ne Suc.prems(1) by (subst chunks.simps) simp
  have "r < length (chunks n (drop n xs))" using Suc.prems(2) by (simp add: unf)
  then have "chunks n (drop n xs) ! r = take n (drop (r * n) (drop n xs))"
    using Suc.prems(1) by (intro Suc.IH)
  then show ?case by (simp add: unf add.commute)
qed

lemma not_square_more_rows:
  assumes "\<not> (\<exists>n. length xs = n * n)"
  shows "floor_sqrt (length xs) < length (chunks (floor_sqrt (length xs)) xs)"
proof -
  let ?n = "floor_sqrt (length xs)"
  have "xs \<noteq> []" using assms by auto
  then have pos: "0 < ?n" by (intro floor_sqrt_pos) simp
  have "?n * ?n \<le> length xs" using floor_sqrt_bounds by auto
  moreover have "?n * ?n \<noteq> length xs" using assms by metis
  ultimately have "?n * ?n < length xs" by simp
  then show ?thesis using pos by (intro chunks_more_rows)
qed

text \<open>
  Claim C4, as amended. \<open>getgrid\<close> has no failure path: for every array of labels it
  returns, and the rows it returns are the consecutive slices of width
  \<open>floor (sqrt count)\<close>, whose concatenation is the array. When the count is a perfect
  square \<open>n * n\<close> the result is the \<open>n\<close>-by-\<open>n\<close> grid in flattened order; when it is not,
  the result has more rows than columns, so it is not a square grid.
\<close>

theorem getgrid_reshape:
  "\<exists>matrix. getgrid mat = Some matrix
     \<and> concat matrix = mat
     \<and> (\<forall>r < length matrix.
           matrix ! r = slice (r * floor_sqrt (length mat))
                              (r * floor_sqrt (length mat) + floor_sqrt (length mat)) mat)
     \<and> (\<forall>n. length mat = n * n \<longrightarrow>
           length matrix = n \<and>
           (\<forall>r < n. length (matrix ! r) = n \<and> (\<forall>c < n. matrix ! r ! c = mat ! (r * n + c))))
     \<and> (\<not> (\<exists>n. length mat = n * n) \<longrightarrow> floor_sqrt (length mat) < length matrix)"
proof (cases "mat = []")
  case True
  have "getgrid mat = Some []"
    using True by (simp add: getgrid_chunks)
  then show ?thesis using True by simp
next
  case False
  let ?n = "floor_sqrt (length mat)"
  let ?m = "chunks ?n mat"
  have pos: "0 < ?n" using False by (intro floor_sqrt_pos) simp
  have rows: "\<forall>r < length ?m. ?m ! r = slice (r * ?n) (r * ?n + ?n) mat"
    using pos by (simp add: chunks_nth slice_def)
  have square: "length ?m = n \<and>
      (\<forall>r < n. length (?m ! r) = n \<and> (\<forall>c < n. ?m ! r ! c = mat ! (r * n + c)))"
    if sq: "length mat = n * n" for n
  proof -
    have n: "?n = n" using sq by simp
    have npos: "0 < n" using pos n by simp
    have ex: "length (chunks n mat) = n"
      "\<And>r. r < n \<Longrightarrow> chunks n mat ! r = take n (drop (r * n) mat)"
      using chunks_exact [OF npos sq] by auto
    have len: "length (take n (drop (r * n) mat)) = n" if "r < n" for r
    proof -
      have "Suc r * n \<le> n * n" using that by (intro mult_le_mono) simp_all
      then show ?thesis using sq by simp
    qed
    have cell: "take n (drop (r * n) mat) ! c = mat ! (r * n + c)" if "r < n" "c < n" for r c
    proof -
      have "Suc r * n \<le> n * n" using that by (intro mult_le_mono) simp_all
      then have "r * n + c < length mat" using sq that by simp
      then show ?thesis using that by simp
    qed
    show ?thesis using ex len cell by (simp add: n)
  qed
  have more: "?n < length ?m" if "\<not> (\<exists>n. length mat = n * n)"
    using that by (rule not_square_more_rows)
  have "getgrid mat = Some ?m" by (rule getgrid_chunks)
  moreover have "concat ?m = mat" using pos by (rule concat_chunks)
  ultimately show ?thesis using rows square more by blast
qed

theorem getgrid_reshape_witness:
  "length [1, 0, 0, 1 :: nat] = 2 * 2
   \<and> getgrid [1, 0, 0, 1 :: nat] = Some [[1, 0], [0, 1]]
   \<and> \<not> (\<exists>n. length [1, 0, 1 :: nat] = n * n)
   \<and> (\<exists>matrix. getgrid [1, 0, 1 :: nat] = Some matrix
         \<and> floor_sqrt (length [1, 0, 1 :: nat]) < length matrix)"
proof -
  have len3: "length [1, 0, 1 :: nat] = 3" by simp
  have ns: "\<not> (\<exists>n. length [1, 0, 1 :: nat] = n * n)"
    unfolding len3
  proof
    assume "\<exists>n :: nat. 3 = n * n"
    then obtain n :: nat where n: "3 = n * n" ..
    have "n < 2 \<or> 2 \<le> n" by linarith
    then show False
    proof
      assume "n < 2"
      then have "n = 0 \<or> n = 1" by linarith
      then show False using n by auto
    next
      assume "2 \<le> n"
      then have "2 * 2 \<le> n * n" by (intro mult_le_mono)
      then show False using n by simp
    qed
  qed
  obtain matrix where m: "getgrid [1, 0, 1 :: nat] = Some matrix"
    and more: "\<not> (\<exists>n. length [1, 0, 1 :: nat] = n * n) \<longrightarrow>
               floor_sqrt (length [1, 0, 1 :: nat]) < length matrix"
    using getgrid_reshape [of "[1, 0, 1 :: nat]"] by blast
  have sq: "length [1, 0, 0, 1 :: nat] = 2 * 2" by simp
  have a: "getgrid [1, 0, 0, 1 :: nat] = Some [[1, 0], [0, 1]]" by code_simp
  show ?thesis
    using ns m more sq a by blast
qed

text \<open>
  Claim C4 as stated fails: three labels are not a perfect square, and \<open>getgrid\<close>
  returns a grid of three rows of one cell instead of failing.
\<close>

theorem getgrid_not_square_counterexample:
  "getgrid [1, 0, 1 :: nat] = Some [[1], [0], [1]]"
  by code_simp

section \<open>Connected components of cells\<close>

lemma nbrs_sym: "b \<in> set (nbrs a) \<Longrightarrow> a \<in> set (nbrs b)"
  by (cases a, cases b) (auto simp: nbrs_def)

lemma nbrs_irrefl: "a \<notin> set (nbrs a)"
  by (cases a) (auto simp: nbrs_def)

lemma edges_mono: "T \<subseteq> S \<Longrightarrow> edges T \<subseteq> edges S"
  by (auto simp: edges_def)

lemma edges_sym: "(a, b) \<in> edges S \<Longrightarrow> (b, a) \<in> edges S"
  by (auto simp: edges_def nbrs_sym)

lemma reach_in: "(a, b) \<in> (edges S)\<^sup>* \<Longrightarrow> a \<in> S \<Longrightarrow> b \<in> S"
  by (induction rule: rtrancl_induct) (auto simp: edges_def)

lemma reach_sym: "(a, b) \<in> (edges S)\<^sup>* \<Longrightarrow> (b, a) \<in> (edges S)\<^sup>*"
proof (induction rule: rtrancl_induct)
  case base
  show ?case by simp
next
  case (step y z)
  have "(z, y) \<in> edges S" using step.hyps(2) by (rule edges_sym)
  then show ?case using step.IH by (meson converse_rtrancl_into_rtrancl)
qed

lemma component_subset: "component S v \<subseteq> S"
  by (auto simp: component_def dest: reach_in)

lemma component_self: "v \<in> S \<Longrightarrow> v \<in> component S v"
  by (simp add: component_def)

lemma component_outside [simp]: "v \<notin> S \<Longrightarrow> component S v = {}"
  by (simp add: component_def)

lemma component_eq:
  assumes "w \<in> component S v"
  shows "component S w = component S v"
proof -
  have v: "v \<in> S" using assms by (auto simp: component_def split: if_splits)
  have vw: "(v, w) \<in> (edges S)\<^sup>*" using assms v by (simp add: component_def)
  have w: "w \<in> S" using vw v by (rule reach_in)
  have wv: "(w, v) \<in> (edges S)\<^sup>*" using vw by (rule reach_sym)
  show ?thesis
  proof (intro set_eqI iffI)
    fix x assume "x \<in> component S w"
    then have "(w, x) \<in> (edges S)\<^sup>*" using w by (simp add: component_def)
    then have "(v, x) \<in> (edges S)\<^sup>*" using vw by (meson rtrancl_trans)
    then show "x \<in> component S v" using v by (simp add: component_def)
  next
    fix x assume "x \<in> component S v"
    then have "(v, x) \<in> (edges S)\<^sup>*" using v by (simp add: component_def)
    then have "(w, x) \<in> (edges S)\<^sup>*" using wv by (meson rtrancl_trans)
    then show "x \<in> component S w" using w by (simp add: component_def)
  qed
qed

lemma closed_in_empty [simp]: "closed_in S {}"
  by (simp add: closed_in_def)

lemma closed_in_reach:
  "(a, b) \<in> (edges S)\<^sup>* \<Longrightarrow> closed_in S U \<Longrightarrow> a \<in> U \<Longrightarrow> b \<in> U"
  by (induction rule: rtrancl_induct) (auto simp: edges_def closed_in_def)

lemma closed_in_component: "closed_in S (component S v)"
proof (cases "v \<in> S")
  case True
  show ?thesis
    unfolding closed_in_def
  proof (intro ballI impI)
    fix a b assume a: "a \<in> component S v" and b: "b \<in> S" "b \<in> set (nbrs a)"
    have va: "(v, a) \<in> (edges S)\<^sup>*" using a True by (simp add: component_def)
    have "a \<in> S" using va True by (rule reach_in)
    then have "(a, b) \<in> edges S" using b by (simp add: edges_def)
    then have "(v, b) \<in> (edges S)\<^sup>*" using va by (meson rtrancl_into_rtrancl)
    then show "b \<in> component S v" using True by (simp add: component_def)
  qed
next
  case False
  then show ?thesis by simp
qed

lemma closed_in_Un: "closed_in S U \<Longrightarrow> closed_in S V \<Longrightarrow> closed_in S (U \<union> V)"
  by (auto simp: closed_in_def)

text \<open>Removing a closed set of cells does not change the components of the other cells.\<close>

lemma component_minus_closed:
  assumes cl: "closed_in S U" and x: "x \<notin> U"
  shows "component (S - U) x = component S x"
proof (cases "x \<in> S")
  case False
  then show ?thesis by simp
next
  case True
  have xin: "x \<in> S - U" using True x by simp
  have sub: "(edges (S - U))\<^sup>* \<subseteq> (edges S)\<^sup>*"
    by (intro rtrancl_mono edges_mono) auto
  have stay: "y \<notin> U \<and> (x, y) \<in> (edges (S - U))\<^sup>*" if "(x, y) \<in> (edges S)\<^sup>*" for y
    using that
  proof (induction rule: rtrancl_induct)
    case base
    show ?case using x by simp
  next
    case (step y z)
    have yz: "y \<in> S" "z \<in> S" "z \<in> set (nbrs y)" using step.hyps(2) by (auto simp: edges_def)
    have "z \<notin> U"
    proof
      assume "z \<in> U"
      moreover have "y \<in> set (nbrs z)" using yz(3) by (rule nbrs_sym)
      ultimately have "y \<in> U" using cl yz(1) by (auto simp: closed_in_def)
      then show False using step.IH by simp
    qed
    moreover have "(y, z) \<in> edges (S - U)"
      using yz step.IH \<open>z \<notin> U\<close> by (simp add: edges_def)
    ultimately show ?case using step.IH by (meson rtrancl_into_rtrancl)
  qed
  show ?thesis
    using sub stay True xin by (auto simp: component_def)
qed

lemma component_inside_closed:
  "closed_in S U \<Longrightarrow> x \<in> U \<Longrightarrow> component S x \<subseteq> U"
  by (auto simp: component_def dest: closed_in_reach split: if_splits)

text \<open>The cells freshly cleared by a fill that starts in what is left of \<open>S\<close>.\<close>

lemma fill_after_closed:
  assumes "closed_in S U"
  shows "U \<union> component (S - U) x = U \<union> component S x"
    and "closed_in S (U \<union> component (S - U) x)"
proof -
  show eq: "U \<union> component (S - U) x = U \<union> component S x"
  proof (cases "x \<in> U")
    case True
    then have "component (S - U) x = {}" by simp
    moreover have "component S x \<subseteq> U" using assms True by (rule component_inside_closed)
    ultimately show ?thesis by auto
  next
    case False
    then show ?thesis using assms by (simp add: component_minus_closed)
  qed
  show "closed_in S (U \<union> component (S - U) x)"
    unfolding eq using assms closed_in_component by (rule closed_in_Un)
qed

text \<open>The component of a cell is the cell and, once it is removed, the components of its
  neighbours.\<close>

lemma component_split:
  assumes v: "v \<in> S"
  shows "component S v = insert v (\<Union>n \<in> set (nbrs v). component (S - {v}) n)"
proof (intro set_eqI iffI)
  fix w assume "w \<in> component S v"
  then have "(v, w) \<in> (edges S)\<^sup>*" using v by (simp add: component_def)
  then have "w = v \<or> (\<exists>n \<in> set (nbrs v). n \<in> S - {v} \<and> (n, w) \<in> (edges (S - {v}))\<^sup>*)"
  proof (induction rule: rtrancl_induct)
    case base
    show ?case by simp
  next
    case (step y z)
    have yz: "y \<in> S" "z \<in> S" "z \<in> set (nbrs y)" using step.hyps(2) by (auto simp: edges_def)
    show ?case
    proof (cases "z = v")
      case True
      then show ?thesis by simp
    next
      case zv: False
      show ?thesis
      proof (cases "y = v")
        case True
        then have "z \<in> set (nbrs v)" "z \<in> S - {v}" using yz zv by auto
        then show ?thesis by blast
      next
        case False
        then obtain n where n: "n \<in> set (nbrs v)" "n \<in> S - {v}"
          "(n, y) \<in> (edges (S - {v}))\<^sup>*"
          using step.IH by blast
        have "(y, z) \<in> edges (S - {v})" using yz zv False by (simp add: edges_def)
        then have "(n, z) \<in> (edges (S - {v}))\<^sup>*" using n(3) by (meson rtrancl_into_rtrancl)
        then show ?thesis using n by blast
      qed
    qed
  qed
  then show "w \<in> insert v (\<Union>n \<in> set (nbrs v). component (S - {v}) n)"
    by (auto simp: component_def)
next
  fix w assume "w \<in> insert v (\<Union>n \<in> set (nbrs v). component (S - {v}) n)"
  then consider "w = v" | n where "n \<in> set (nbrs v)" "w \<in> component (S - {v}) n" by auto
  then show "w \<in> component S v"
  proof cases
    case 1
    then show ?thesis using v by (simp add: component_self)
  next
    case (2 n)
    then have nin: "n \<in> S - {v}" and nw: "(n, w) \<in> (edges (S - {v}))\<^sup>*"
      by (auto simp: component_def split: if_splits)
    have "(edges (S - {v}))\<^sup>* \<subseteq> (edges S)\<^sup>*" by (intro rtrancl_mono edges_mono) auto
    then have "(n, w) \<in> (edges S)\<^sup>*" using nw by auto
    moreover have "(v, n) \<in> edges S" using v nin 2(1) by (simp add: edges_def)
    ultimately have "(v, w) \<in> (edges S)\<^sup>*" by (meson converse_rtrancl_into_rtrancl)
    then show ?thesis using v by (simp add: component_def)
  qed
qed

text \<open>
  The four successive fills of \<open>dfs\<close> around a cell \<open>v\<close> that has just been cleared: each
  starts in what the earlier ones left, and together with \<open>v\<close> they clear the component
  of \<open>v\<close>.
\<close>

lemma four_fills:
  assumes v: "v \<in> S"
    and n: "nbrs v = [n1, n2, n3, n4]"
    and C1: "C1 = component (S - {v}) n1"
    and C2: "C2 = component (S - {v} - C1) n2"
    and C3: "C3 = component (S - {v} - C1 - C2) n3"
    and C4: "C4 = component (S - {v} - C1 - C2 - C3) n4"
  shows "component S v = insert v (C1 \<union> C2 \<union> C3 \<union> C4)"
proof -
  let ?S0 = "S - {v}"
  have cl1: "closed_in ?S0 C1" unfolding C1 by (rule closed_in_component)
  have u2: "C1 \<union> C2 = C1 \<union> component ?S0 n2" and cl2: "closed_in ?S0 (C1 \<union> C2)"
    unfolding C2 using fill_after_closed [OF cl1] by auto
  have s3: "?S0 - C1 - C2 = ?S0 - (C1 \<union> C2)" by auto
  have u3: "C1 \<union> C2 \<union> C3 = C1 \<union> C2 \<union> component ?S0 n3"
    and cl3: "closed_in ?S0 (C1 \<union> C2 \<union> C3)"
    unfolding C3 s3 using fill_after_closed [OF cl2] by auto
  have s4: "?S0 - C1 - C2 - C3 = ?S0 - (C1 \<union> C2 \<union> C3)" by auto
  have u4: "C1 \<union> C2 \<union> C3 \<union> C4 = C1 \<union> C2 \<union> C3 \<union> component ?S0 n4"
    unfolding C4 s4 using fill_after_closed [OF cl3] by auto
  have "C1 \<union> C2 \<union> C3 \<union> C4 =
          component ?S0 n1 \<union> component ?S0 n2 \<union> component ?S0 n3 \<union> component ?S0 n4"
    using u2 u3 u4 C1 by auto
  also have "\<dots> = (\<Union>n \<in> set (nbrs v). component ?S0 n)"
    unfolding n by auto
  finally show ?thesis using component_split [OF v] by simp
qed

section \<open>The flood fill\<close>

lemma finite_ones [simp]: "finite (ones rows cols grid)"
proof -
  have "ones rows cols grid \<subseteq> {0..<int rows} \<times> {0..<int cols}"
    by (auto simp: ones_def)
  then show ?thesis by (rule finite_subset) simp
qed

lemma cell_set_cell:
  assumes "cell grid i j = Some u"
  shows "cell (set_cell grid i j v) i' j' = (if i' = i \<and> j' = j then Some v else cell grid i' j')"
proof -
  have i: "0 \<le> i" "nat i < length grid" and j: "0 \<le> j" "nat j < length (grid ! nat i)"
    using assms by (auto simp: cell_def split: if_splits)
  show ?thesis
  proof (cases "i' = i")
    case True
    then show ?thesis
      using i j by (auto simp: cell_def set_cell_def nth_list_update nat_eq_iff)
  next
    case False
    then have "0 \<le> i' \<Longrightarrow> nat i' \<noteq> nat i" using i by auto
    then show ?thesis
      using False by (auto simp: cell_def set_cell_def nth_list_update)
  qed
qed

lemma ones_set_cell:
  assumes "(i, j) \<in> ones rows cols grid"
  shows "ones rows cols (set_cell grid i j 0) = ones rows cols grid - {(i, j)}"
proof -
  have "cell grid i j = Some 1" using assms by (simp add: ones_def)
  then have "cell (set_cell grid i j 0) i' j' =
      (if i' = i \<and> j' = j then Some 0 else cell grid i' j')" for i' j'
    by (rule cell_set_cell)
  then show ?thesis by (auto simp: ones_def)
qed

lemma dfs_outside:
  "(i, j) \<notin> ones rows cols grid \<Longrightarrow> dfs rows cols grid i j = Some (0, grid)"
  by (subst dfs.simps) (auto simp: ones_def)

lemma dfs_inside:
  assumes "(i, j) \<in> ones rows cols grid"
  shows "dfs rows cols grid i j =
     Option.bind (dfs rows cols (set_cell grid i j 0) (i + 1) j) (\<lambda>(down, g1).
     Option.bind (dfs rows cols g1 (i - 1) j) (\<lambda>(up, g2).
     Option.bind (dfs rows cols g2 i (j + 1)) (\<lambda>(right, g3).
     Option.bind (dfs rows cols g3 i (j - 1)) (\<lambda>(left, g4).
     Some (1 + down + up + right + left, g4)))))"
  using assms by (subst dfs.simps) (auto simp: ones_def)

text \<open>
  \<open>dfs\<close> returns on every grid. It returns the number of cells of the 4-connected
  component of its start cell among the 1-cells (0 when the start is not a 1-cell), and the
  grid it leaves has exactly the cells of that component cleared.
\<close>

lemma dfs_fill:
  "\<exists>g'. dfs rows cols grid i j = Some (card (component (ones rows cols grid) (i, j)), g')
        \<and> ones rows cols g' = ones rows cols grid - component (ones rows cols grid) (i, j)"
proof (induction "card (ones rows cols grid)" arbitrary: grid i j rule: less_induct)
  case less
  let ?S = "ones rows cols grid"
  show ?case
  proof (cases "(i, j) \<in> ?S")
    case False
    then show ?thesis by (simp add: dfs_outside)
  next
    case True
    let ?g0 = "set_cell grid i j 0"
    have S0: "ones rows cols ?g0 = ?S - {(i, j)}" using True by (rule ones_set_cell)
    have less0: "card (?S - {(i, j)}) < card ?S"
      using True by (intro card_Diff1_less) simp_all
    have step: "\<exists>g'. dfs rows cols g a b = Some (card (component (ones rows cols g) (a, b)), g')
        \<and> ones rows cols g' = ones rows cols g - component (ones rows cols g) (a, b)"
      if "ones rows cols g \<subseteq> ?S - {(i, j)}" for g a b
    proof -
      have "card (ones rows cols g) \<le> card (?S - {(i, j)})"
        using that by (intro card_mono) simp_all
      then have "card (ones rows cols g) < card ?S" using less0 by simp
      then show ?thesis by (rule less.hyps)
    qed
    define C1 where "C1 = component (?S - {(i, j)}) (i + 1, j)"
    define C2 where "C2 = component (?S - {(i, j)} - C1) (i - 1, j)"
    define C3 where "C3 = component (?S - {(i, j)} - C1 - C2) (i, j + 1)"
    define C4 where "C4 = component (?S - {(i, j)} - C1 - C2 - C3) (i, j - 1)"
    obtain g1 where g1: "dfs rows cols ?g0 (i + 1) j = Some (card C1, g1)"
      "ones rows cols g1 = ?S - {(i, j)} - C1"
      using step [of ?g0 "i + 1" j] S0 by (auto simp: C1_def)
    obtain g2 where g2: "dfs rows cols g1 (i - 1) j = Some (card C2, g2)"
      "ones rows cols g2 = ?S - {(i, j)} - C1 - C2"
      using step [of g1 "i - 1" j] g1(2) by (auto simp: C2_def)
    obtain g3 where g3: "dfs rows cols g2 i (j + 1) = Some (card C3, g3)"
      "ones rows cols g3 = ?S - {(i, j)} - C1 - C2 - C3"
      using step [of g2 i "j + 1"] g2(2) by (auto simp: C3_def)
    obtain g4 where g4: "dfs rows cols g3 i (j - 1) = Some (card C4, g4)"
      "ones rows cols g4 = ?S - {(i, j)} - C1 - C2 - C3 - C4"
      using step [of g3 i "j - 1"] g3(2) by (auto simp: C4_def)
    have run: "dfs rows cols grid i j = Some (1 + card C1 + card C2 + card C3 + card C4, g4)"
      by (simp add: dfs_inside [OF True] g1(1) g2(1) g3(1) g4(1))
    have comp: "component ?S (i, j) = insert (i, j) (C1 \<union> C2 \<union> C3 \<union> C4)"
      using True
    proof (rule four_fills)
      show "nbrs (i, j) = [(i + 1, j), (i - 1, j), (i, j + 1), (i, j - 1)]"
        by (simp add: nbrs_def)
    qed (simp_all add: C1_def C2_def C3_def C4_def)
    have sub: "C1 \<subseteq> ?S - {(i, j)}" "C2 \<subseteq> ?S - {(i, j)} - C1"
      "C3 \<subseteq> ?S - {(i, j)} - C1 - C2" "C4 \<subseteq> ?S - {(i, j)} - C1 - C2 - C3"
      unfolding C1_def C2_def C3_def C4_def by (rule component_subset)+
    have fin: "finite C1" "finite C2" "finite C3" "finite C4"
      using sub by (meson finite_ones finite_Diff finite_subset)+
    have "card (insert (i, j) (C1 \<union> C2 \<union> C3 \<union> C4)) = Suc (card (C1 \<union> C2 \<union> C3 \<union> C4))"
      using sub fin by (intro card_insert_disjoint) auto
    also have "card (C1 \<union> C2 \<union> C3 \<union> C4) = card (C1 \<union> C2 \<union> C3) + card C4"
      using sub fin by (intro card_Un_disjoint) auto
    also have "card (C1 \<union> C2 \<union> C3) = card (C1 \<union> C2) + card C3"
      using sub fin by (intro card_Un_disjoint) auto
    also have "card (C1 \<union> C2) = card C1 + card C2"
      using sub fin by (intro card_Un_disjoint) auto
    finally have card: "card (component ?S (i, j)) = 1 + card C1 + card C2 + card C3 + card C4"
      by (simp add: comp)
    have "ones rows cols g4 = ?S - component ?S (i, j)"
      unfolding g4(2) comp by auto
    then show ?thesis using run card by simp
  qed
qed

section \<open>The scanning loops\<close>

lemma for_each_append:
  "for_each body (xs @ ys) st = Option.bind (for_each body xs st) (for_each body ys)"
proof (induction xs arbitrary: st)
  case Nil
  show ?case by simp
next
  case (Cons x xs)
  show ?case by (cases "body x st") (simp_all add: Cons.IH)
qed

lemma for_each_nested:
  "for_each (\<lambda>i. for_each (body i) ys) xs st =
     for_each (\<lambda>p. body (fst p) (snd p)) (concat (map (\<lambda>i. map (\<lambda>j. (i, j)) ys) xs)) st"
proof (induction xs arbitrary: st)
  case Nil
  show ?case by simp
next
  case (Cons x xs)
  have inner: "for_each (\<lambda>p. body (fst p) (snd p)) (map (\<lambda>j. (x, j)) ys) s =
      for_each (body x) ys s" for s
  proof (induction ys arbitrary: s)
    case Nil
    show ?case by simp
  next
    case (Cons y ys)
    show ?case by (cases "body x y s") (simp_all add: Cons.IH)
  qed
  show ?case
    by (cases "for_each (body x) ys st") (simp_all add: for_each_append inner Cons.IH)
qed

text \<open>The scanning order is strictly increasing, rows first.\<close>

lemma set_scan_order: "set (scan_order rows cols) = {p. fst p < rows \<and> snd p < cols}"
  by (auto simp: scan_order_def)

lemma sorted_row: "sorted_wrt scan_lt (map (\<lambda>j. (i, j)) [0..<cols])"
  by (induction cols) (auto simp: sorted_wrt_append scan_lt_def)

lemma sorted_scan_order: "sorted_wrt scan_lt (scan_order rows cols)"
proof (induction rows)
  case 0
  show ?case by (simp add: scan_order_def)
next
  case (Suc rows)
  have "scan_order (Suc rows) cols = scan_order rows cols @ map (\<lambda>j. (rows, j)) [0..<cols]"
    by (simp add: scan_order_def)
  moreover have "\<forall>x \<in> set (scan_order rows cols). \<forall>y \<in> set (map (\<lambda>j. (rows, j)) [0..<cols]).
      scan_lt x y"
    by (auto simp: set_scan_order scan_lt_def)
  ultimately show ?case
    using Suc sorted_row [of rows cols] by (simp add: sorted_wrt_append)
qed

lemma scan_lt_not_le: "scan_lt a b \<Longrightarrow> \<not> row_major_le (pos b) (pos a)"
  by (auto simp: scan_lt_def row_major_le_def pos_def)

lemma scan_lt_le: "scan_lt a b \<Longrightarrow> row_major_le (pos a) (pos b)"
  by (auto simp: scan_lt_def row_major_le_def pos_def)

lemma row_major_le_refl [simp]: "row_major_le a a"
  by (simp add: row_major_le_def)

lemma ones_pos:
  "w \<in> ones rows cols grid \<Longrightarrow> \<exists>p. w = pos p \<and> fst p < rows \<and> snd p < cols"
proof -
  assume "w \<in> ones rows cols grid"
  then have "0 \<le> fst w" "fst w < int rows" "0 \<le> snd w" "snd w < int cols"
    by (auto simp: ones_def)
  then have "w = pos (nat (fst w), nat (snd w)) \<and> fst (nat (fst w), nat (snd w)) < rows
      \<and> snd (nat (fst w), nat (snd w)) < cols"
    by (auto simp: pos_def nat_less_iff)
  then show ?thesis by blast
qed

lemma visit_skip:
  assumes "pos (i, j) \<notin> ones rows cols (st_grid st)" "i < rows" "j < cols"
  shows "visit rows cols minSize i j st = Some st"
  using assms by (simp add: visit_def ones_def pos_def)

lemma visit_fill:
  assumes "pos (i, j) \<in> ones rows cols (st_grid st)"
  shows "\<exists>g'. ones rows cols g' = ones rows cols (st_grid st)
                  - component (ones rows cols (st_grid st)) (pos (i, j))
     \<and> visit rows cols minSize i j st =
         Some (if minSize \<le> int (card (component (ones rows cols (st_grid st)) (pos (i, j))))
               then \<lparr>st_grid = g',
                     st_score = js_add (st_score st)
                       (score_term (card (component (ones rows cols (st_grid st)) (pos (i, j))))
                          (computedist rows cols (int j) (int i))),
                     st_sizes = st_sizes st
                       @ [card (component (ones rows cols (st_grid st)) (pos (i, j)))],
                     st_totalSize = st_totalSize st
                       + card (component (ones rows cols (st_grid st)) (pos (i, j))),
                     st_count = st_count st + 1\<rparr>
               else st\<lparr>st_grid := g'\<rparr>)"
proof -
  let ?S = "ones rows cols (st_grid st)"
  obtain g' where g': "dfs rows cols (st_grid st) (int i) (int j)
        = Some (card (component ?S (int i, int j)), g')"
      "ones rows cols g' = ?S - component ?S (int i, int j)"
    using dfs_fill [of rows cols "st_grid st" "int i" "int j"] by blast
  have "cell (st_grid st) (int i) (int j) = Some 1"
    using assms by (simp add: ones_def pos_def)
  then show ?thesis
    using g' by (auto simp: visit_def pos_def)
qed

text \<open>
  The invariant of the scan. \<open>S\<close> is the set of 1-cells of the grid \<open>findclusters\<close> was
  given, \<open>ps\<close> the cells already scanned, \<open>qs\<close> those still to come. What has been
  cleared so far is closed in \<open>S\<close>, contains no cell still to be found, and every cleared
  cell shares its component with a scanned cell.
\<close>

lemma scan_suffix:
  fixes grid :: grid and minSize :: int
  defines "rows \<equiv> length grid" and "cols \<equiv> length (grid ! 0)"
  defines "S \<equiv> ones (length grid) (length (grid ! 0)) grid"
  defines "disc \<equiv> first_of_component S"
  assumes order: "scan_order rows cols = ps @ qs"
    and sub: "ones rows cols (st_grid st) \<subseteq> S"
    and closed: "closed_in S (S - ones rows cols (st_grid st))"
    and scanned: "\<forall>p \<in> set ps. pos p \<notin> ones rows cols (st_grid st)"
    and cleared: "\<forall>w \<in> S - ones rows cols (st_grid st). \<exists>p \<in> set ps. pos p \<in> component S w"
  shows "\<exists>st'. for_each (\<lambda>p. visit rows cols minSize (fst p) (snd p)) qs st = Some st'
     \<and> st_count st' = st_count st
         + length (filter (\<lambda>p. minSize \<le> int (component_size grid p)) (filter disc qs))
     \<and> st_sizes st' = st_sizes st
         @ map (component_size grid)
             (filter (\<lambda>p. minSize \<le> int (component_size grid p)) (filter disc qs))
     \<and> st_totalSize st' = st_totalSize st
         + sum_list (map (component_size grid)
             (filter (\<lambda>p. minSize \<le> int (component_size grid p)) (filter disc qs)))
     \<and> st_score st' = foldl js_add (st_score st)
         (map (component_term grid)
             (filter (\<lambda>p. minSize \<le> int (component_size grid p)) (filter disc qs)))"
  using order sub closed scanned cleared
proof (induction qs arbitrary: ps st)
  case Nil
  show ?case by simp
next
  case (Cons q qs)
  let ?g = "st_grid st"
  let ?O = "ones rows cols ?g"
  have sorted: "sorted_wrt scan_lt (ps @ q # qs)"
    using sorted_scan_order [of rows cols] Cons.prems(1) by simp
  have before: "\<forall>p \<in> set ps. scan_lt p q" and after: "\<forall>r \<in> set qs. scan_lt q r"
    using sorted by (auto simp: sorted_wrt_append)
  have "q \<in> set (scan_order rows cols)" using Cons.prems(1) by simp
  then have q: "fst q < rows" "snd q < cols" by (auto simp: set_scan_order)
  have order': "scan_order rows cols = (ps @ [q]) @ qs" using Cons.prems(1) by simp
  show ?case
  proof (cases "pos q \<in> ?O")
    case False
    have skip: "visit rows cols minSize (fst q) (snd q) st = Some st"
      using False q by (intro visit_skip) simp_all
    have "\<not> disc q"
    proof (cases "pos q \<in> S")
      case False
      then show ?thesis by (simp add: disc_def first_of_component_def)
    next
      case True
      then obtain p where p: "p \<in> set ps" "pos p \<in> component S (pos q)"
        using False Cons.prems(5) by blast
      have "\<not> row_major_le (pos q) (pos p)" using before p(1) by (intro scan_lt_not_le) simp
      then show ?thesis using p(2) by (auto simp: disc_def first_of_component_def)
    qed
    moreover have "\<exists>st'. for_each (\<lambda>p. visit rows cols minSize (fst p) (snd p)) qs st = Some st'
       \<and> st_count st' = st_count st
           + length (filter (\<lambda>p. minSize \<le> int (component_size grid p)) (filter disc qs))
       \<and> st_sizes st' = st_sizes st
           @ map (component_size grid)
               (filter (\<lambda>p. minSize \<le> int (component_size grid p)) (filter disc qs))
       \<and> st_totalSize st' = st_totalSize st
           + sum_list (map (component_size grid)
               (filter (\<lambda>p. minSize \<le> int (component_size grid p)) (filter disc qs)))
       \<and> st_score st' = foldl js_add (st_score st)
           (map (component_term grid)
               (filter (\<lambda>p. minSize \<le> int (component_size grid p)) (filter disc qs)))"
      using order' Cons.prems(2) Cons.prems(3)
    proof (rule Cons.IH)
      show "\<forall>p \<in> set (ps @ [q]). pos p \<notin> ?O" using Cons.prems(4) False by simp
      show "\<forall>w \<in> S - ?O. \<exists>p \<in> set (ps @ [q]). pos p \<in> component S w"
        using Cons.prems(5) by auto
    qed
    ultimately show ?thesis by (simp add: skip)
  next
    case True
    let ?C = "component ?O (pos q)"
    have qS: "pos q \<in> S" using True Cons.prems(2) by auto
    have O: "?O = S - (S - ?O)" using Cons.prems(2) by auto
    have "component (S - (S - ?O)) (pos q) = component S (pos q)"
      using Cons.prems(3) True by (intro component_minus_closed) simp_all
    then have C: "?C = component S (pos q)" using O by simp
    have size: "card ?C = component_size grid q"
      by (simp add: C component_size_def S_def)
    have "disc q"
      unfolding disc_def first_of_component_def
    proof (intro conjI ballI)
      show "pos q \<in> S" by (rule qS)
    next
      fix w assume "w \<in> component S (pos q)"
      then have w: "w \<in> ?O" using C component_subset [of ?O "pos q"] by auto
      then obtain r where r: "w = pos r" "fst r < rows" "snd r < cols"
        using ones_pos by blast
      then have "r \<in> set (ps @ q # qs)"
        using Cons.prems(1) [symmetric] by (simp only: set_scan_order) simp
      moreover have "r \<notin> set ps" using Cons.prems(4) w r(1) by auto
      ultimately have "r = q \<or> r \<in> set qs" by auto
      then show "row_major_le (pos q) w"
        using after r(1) by (auto intro: scan_lt_le)
    qed
    obtain g' where g': "ones rows cols g' = ?O - ?C"
      and run: "visit rows cols minSize (fst q) (snd q) st =
         Some (if minSize \<le> int (card ?C)
               then \<lparr>st_grid = g',
                     st_score = js_add (st_score st)
                       (score_term (card ?C) (computedist rows cols (int (snd q)) (int (fst q)))),
                     st_sizes = st_sizes st @ [card ?C],
                     st_totalSize = st_totalSize st + card ?C,
                     st_count = st_count st + 1\<rparr>
               else st\<lparr>st_grid := g'\<rparr>)"
      using visit_fill [of "fst q" "snd q" rows cols st minSize] True by auto
    define st1 where "st1 = (if minSize \<le> int (card ?C)
               then \<lparr>st_grid = g',
                     st_score = js_add (st_score st)
                       (score_term (card ?C) (computedist rows cols (int (snd q)) (int (fst q)))),
                     st_sizes = st_sizes st @ [card ?C],
                     st_totalSize = st_totalSize st + card ?C,
                     st_count = st_count st + 1\<rparr>
               else st\<lparr>st_grid := g'\<rparr>)"
    have grid1: "st_grid st1 = g'" by (simp add: st1_def)
    have trm: "score_term (component_size grid q)
          (computedist rows cols (int (snd q)) (int (fst q))) = component_term grid q"
      by (simp add: component_term_def rows_def cols_def)
    have "\<exists>st'. for_each (\<lambda>p. visit rows cols minSize (fst p) (snd p)) qs st1 = Some st'
       \<and> st_count st' = st_count st1
           + length (filter (\<lambda>p. minSize \<le> int (component_size grid p)) (filter disc qs))
       \<and> st_sizes st' = st_sizes st1
           @ map (component_size grid)
               (filter (\<lambda>p. minSize \<le> int (component_size grid p)) (filter disc qs))
       \<and> st_totalSize st' = st_totalSize st1
           + sum_list (map (component_size grid)
               (filter (\<lambda>p. minSize \<le> int (component_size grid p)) (filter disc qs)))
       \<and> st_score st' = foldl js_add (st_score st1)
           (map (component_term grid)
               (filter (\<lambda>p. minSize \<le> int (component_size grid p)) (filter disc qs)))"
      using order'
    proof (rule Cons.IH)
      show "ones rows cols (st_grid st1) \<subseteq> S"
        using g' Cons.prems(2) by (auto simp: grid1)
      have "S - ones rows cols (st_grid st1) = (S - ?O) \<union> component S (pos q)"
        using g' C component_subset [of S "pos q"] by (auto simp: grid1)
      then show "closed_in S (S - ones rows cols (st_grid st1))"
        using Cons.prems(3) closed_in_component [of S "pos q"] by (simp add: closed_in_Un)
      show "\<forall>p \<in> set (ps @ [q]). pos p \<notin> ones rows cols (st_grid st1)"
        using Cons.prems(4) g' True by (auto simp: grid1 component_self)
      show "\<forall>w \<in> S - ones rows cols (st_grid st1). \<exists>p \<in> set (ps @ [q]). pos p \<in> component S w"
      proof
        fix w assume w: "w \<in> S - ones rows cols (st_grid st1)"
        show "\<exists>p \<in> set (ps @ [q]). pos p \<in> component S w"
        proof (cases "w \<in> ?C")
          case True
          then have "component S w = component S (pos q)" using C by (simp add: component_eq)
          then have "pos q \<in> component S w" using qS by (simp add: component_self)
          then show ?thesis by simp
        next
          case False
          then have "w \<in> S - ?O" using w g' by (auto simp: grid1)
          then show ?thesis using Cons.prems(5) by auto
        qed
      qed
    qed
    then show ?thesis
      using \<open>disc q\<close> by (simp add: run st1_def [symmetric]) (auto simp: st1_def size trm)
  qed
qed

section \<open>Properties of findclusters\<close>

lemma foldl_js_sum: "foldl js_add (Num 0) xs = js_sum xs"
  by (simp add: js_sum_def)

text \<open>
  \<open>findclusters\<close> returns on every non-empty grid, and what it returns is the aggregate
  over the discovery coordinates of the components that reach the threshold, in
  scanning order.
\<close>

lemma findclusters_components:
  assumes "grid \<noteq> []"
  shows "findclusters grid minSize =
     Some \<lparr>count = length (qualifying grid minSize),
           sizes = map (component_size grid) (qualifying grid minSize),
           totalSize = sum_list (map (component_size grid) (qualifying grid minSize)),
           score = Some (js_sum (map (component_term grid) (qualifying grid minSize)))\<rparr>"
proof -
  let ?rows = "length grid" and ?cols = "length (grid ! 0)"
  let ?S = "ones ?rows ?cols grid"
  let ?st0 = "\<lparr>st_grid = grid, st_score = Num 0, st_sizes = [], st_totalSize = 0, st_count = 0\<rparr>"
  let ?Q = "filter (\<lambda>p. minSize \<le> int (component_size grid p))
              (filter (first_of_component ?S) (scan_order ?rows ?cols))"
  have "\<exists>st'. for_each (\<lambda>p. visit ?rows ?cols minSize (fst p) (snd p))
                 (scan_order ?rows ?cols) ?st0 = Some st'
     \<and> st_count st' = st_count ?st0 + length ?Q
     \<and> st_sizes st' = st_sizes ?st0 @ map (component_size grid) ?Q
     \<and> st_totalSize st' = st_totalSize ?st0 + sum_list (map (component_size grid) ?Q)
     \<and> st_score st' = foldl js_add (st_score ?st0) (map (component_term grid) ?Q)"
    by (rule scan_suffix [where ps = "[]"]) simp_all
  then obtain st' where st':
    "for_each (\<lambda>p. visit ?rows ?cols minSize (fst p) (snd p)) (scan_order ?rows ?cols) ?st0
       = Some st'"
    "st_count st' = length ?Q"
    "st_sizes st' = map (component_size grid) ?Q"
    "st_totalSize st' = sum_list (map (component_size grid) ?Q)"
    "st_score st' = js_sum (map (component_term grid) ?Q)"
    by (auto simp: foldl_js_sum)
  have Q: "qualifying grid minSize = ?Q"
    by (simp add: qualifying_def discovery_coordinates_def Let_def)
  have "for_each (\<lambda>i. for_each (visit ?rows ?cols minSize i) [0..<?cols]) [0..<?rows] ?st0
      = Some st'"
    unfolding for_each_nested using st'(1) by (simp add: scan_order_def)
  then have "findclusters grid minSize =
      Some \<lparr>count = st_count st', sizes = st_sizes st',
            totalSize = st_totalSize st', score = Some (st_score st')\<rparr>"
    using assms by (simp add: findclusters_def Let_def)
  then show ?thesis
    unfolding Q st'(2-5) .
qed

text \<open>
  Claim C10. On a non-empty grid \<open>findclusters\<close> returns, and in its result \<open>count\<close> is the
  length of \<open>sizes\<close> and \<open>totalSize\<close> is the sum of the elements of \<open>sizes\<close>.
\<close>

theorem findclusters_consistent:
  assumes "grid \<noteq> []"
  shows "\<exists>r. findclusters grid minSize = Some r
           \<and> count r = length (sizes r) \<and> totalSize r = sum_list (sizes r)"
  using findclusters_components [OF assms, of minSize] by simp

theorem findclusters_consistent_witness:
  "\<exists>r. findclusters [[1, 1, 0], [0, 1, 0], [0, 0, 1]] 2 = Some r
       \<and> count r = length (sizes r) \<and> totalSize r = sum_list (sizes r) \<and> sizes r = [3]"
proof -
  have ne: "[[1, 1, 0], [0, 1, 0], [0, 0, 1 :: nat]] \<noteq> []" by simp
  have run: "findclusters [[1, 1, 0], [0, 1, 0], [0, 0, 1]] 2 =
      Some \<lparr>count = 1, sizes = [3], totalSize = 3, score = Some (Num 100)\<rparr>"
    by code_simp
  show ?thesis
    using findclusters_consistent [OF ne, of 2] run by simp
qed

text \<open>
  Claim C9 is about a grid without 1-cells, the empty grid included, and asks for all four
  fields. On the empty grid the early return of \<open>findclusters\<close> gives an object without
  the \<open>score\<close> field.
\<close>

theorem findclusters_empty_no_score:
  "findclusters [] minSize = Some \<lparr>count = 0, sizes = [], totalSize = 0, score = None\<rparr>"
  by (simp add: findclusters_def)

text \<open>On a non-empty grid without a 1-cell all four fields are there and are zero.\<close>

lemma no_ones_no_discovery:
  assumes "ones (length grid) (length (grid ! 0)) grid = {}"
  shows "qualifying grid minSize = []"
  using assms
  by (simp add: qualifying_def discovery_coordinates_def first_of_component_def Let_def)

lemma findclusters_no_ones:
  assumes "grid \<noteq> []" and "\<forall>row \<in> set grid. 1 \<notin> set row"
  shows "findclusters grid minSize
     = Some \<lparr>count = 0, sizes = [], totalSize = 0, score = Some (Num 0)\<rparr>"
proof -
  have "cell grid i j \<noteq> Some 1" for i j
  proof
    assume "cell grid i j = Some 1"
    then have i: "nat i < length grid" and j: "nat j < length (grid ! nat i)"
      and v: "grid ! nat i ! nat j = 1"
      by (auto simp: cell_def split: if_splits)
    have "grid ! nat i \<in> set grid" using i by simp
    moreover have "1 \<in> set (grid ! nat i)" using j v by (metis nth_mem)
    ultimately show False using assms(2) by blast
  qed
  then have "ones (length grid) (length (grid ! 0)) grid = {}"
    by (auto simp: ones_def)
  then have "qualifying grid minSize = []" by (rule no_ones_no_discovery)
  then show ?thesis
    using findclusters_components [OF assms(1), of minSize] by (simp add: js_sum_def)
qed

text \<open>
  Claim C2 asks that a distance of 0 be raised to 1. \<open>findclusters\<close> divides by the distance
  as it is: in a 3-by-3 grid the centre used is \<open>(2, 2)\<close>, a component discovered there is
  at distance 0, and the score returned is \<open>Infinity\<close>, where a distance of 1 would
  give 100.
\<close>

theorem findclusters_center_infinite:
  "findclusters [[0, 0, 0], [0, 0, 0], [0, 0, 1]] 1
     = Some \<lparr>count = 1, sizes = [1], totalSize = 1, score = Some Infinity\<rparr>
   \<and> computedist 3 3 2 2 = 0 \<and> score_term 1 1 = Num 100"
  by code_simp

section \<open>Discovery coordinates and components\<close>






lemma distinct_scan_order: "distinct (scan_order rows cols)"
proof -
  have "scan_lt a b \<Longrightarrow> a \<noteq> b" for a b by (auto simp: scan_lt_def)
  then show ?thesis
    using sorted_scan_order [of rows cols]
    by (metis (mono_tags, lifting) distinct_conv_nth sorted_wrt_iff_nth_less nat_neq_iff)
qed



text \<open>\<open>round_sqrt\<close> and \<open>js_round\<close> against the real numbers.\<close>

lemma round_sqrt_real: "int (round_sqrt k) = \<lfloor>sqrt (real k) + 1 / 2\<rfloor>"
proof -
  let ?r = "floor_sqrt k"
  have b: "?r * ?r \<le> k" "k < Suc ?r * Suc ?r" using floor_sqrt_bounds by auto
  have lo: "real ?r \<le> sqrt (real k)"
  proof (rule real_le_rsqrt)
    have "real (?r * ?r) \<le> real k" using b(1) by (simp only: of_nat_le_iff)
    then show "(real ?r)\<^sup>2 \<le> real k" by (simp add: power2_eq_square)
  qed
  have hi: "sqrt (real k) < real ?r + 1"
  proof (rule real_less_lsqrt)
    have "real k < real (Suc ?r * Suc ?r)" using b(2) by (simp only: of_nat_less_iff)
    then show "real k < (real ?r + 1)\<^sup>2" by (simp add: power2_eq_square algebra_simps)
  qed simp_all
  show ?thesis
  proof (cases "?r * ?r + ?r < k")
    case True
    then have "Suc (?r * ?r + ?r) \<le> k" by simp
    then have "real (Suc (?r * ?r + ?r)) \<le> real k" by (simp only: of_nat_le_iff)
    then have "real (?r * ?r + ?r) + 1 \<le> real k" by simp
    then have "(real ?r + 1 / 2)\<^sup>2 \<le> real k"
      by (simp add: power2_eq_square algebra_simps)
    then have "real ?r + 1 / 2 \<le> sqrt (real k)" by (rule real_le_rsqrt)
    then have "\<lfloor>sqrt (real k) + 1 / 2\<rfloor> = int ?r + 1"
      using hi by (intro floor_unique) simp_all
    then show ?thesis using True by (simp add: round_sqrt_def Let_def)
  next
    case False
    then have "k \<le> ?r * ?r + ?r" by simp
    then have "real k \<le> real (?r * ?r + ?r)" by (simp only: of_nat_le_iff)
    then have "real k < (real ?r + 1 / 2)\<^sup>2"
      by (simp add: power2_eq_square algebra_simps)
    then have "sqrt (real k) < real ?r + 1 / 2" by (intro real_less_lsqrt) simp_all
    then have "\<lfloor>sqrt (real k) + 1 / 2\<rfloor> = int ?r"
      using lo by (intro floor_unique) simp_all
    then show ?thesis using False by (simp add: round_sqrt_def Let_def)
  qed
qed

lemma js_round_half: "js_round (of_nat n / 2 :: rat) = int ((n + 1) div 2)"
proof -
  have "(of_nat n :: rat) / 2 + 1 / 2 = of_int (int (n + 1)) / of_int 2" by simp
  then have "js_round (of_nat n / 2 :: rat) = int (n + 1) div 2"
    unfolding js_round_def by (simp only: floor_divide_of_int_eq)
  then show ?thesis by (simp add: zdiv_int)
qed

lemma qualifying_empty [simp]: "qualifying [] minSize = []"
  by (simp add: qualifying_def discovery_coordinates_def scan_order_def)



section \<open>Properties of extractBlocks\<close>

text \<open>The block whose top left corner is at row \<open>i\<close>, column \<open>j\<close>.\<close>

lemma make_block_ok:
  "i + size' \<le> length trimmedMat \<Longrightarrow>
   make_block trimmedMat size' i j
     = Inr (map (\<lambda>k. slice j (j + size') (trimmedMat ! (i + k))) [0..<size'])"
  by (simp add: make_block_def list_all_iff)

lemma block_columns_closed:
  assumes "0 < size'" "i + size' \<le> length tm" "a \<le> c"
  shows "block_columns tm size' (c * size') i (a * size') blocks =
     Inr (blocks @ map (\<lambda>q. map (\<lambda>k. slice (q * size') (q * size' + size') (tm ! (i + k))) [0..<size'])
                     [a..<c])"
  using assms(3)
proof (induction "c - a" arbitrary: a blocks)
  case 0
  then have "a = c" by simp
  then show ?case by (subst block_columns.simps) simp
next
  case (Suc d)
  then have lt: "a < c" by simp
  then have "a * size' < c * size'" using assms(1) by simp
  then have "block_columns tm size' (c * size') i (a * size') blocks =
      block_columns tm size' (c * size') i (Suc a * size')
        (blocks @ [map (\<lambda>k. slice (a * size') (a * size' + size') (tm ! (i + k))) [0..<size']])"
    using assms(1,2) by (subst block_columns.simps) (simp add: make_block_ok add.commute)
  also have "\<dots> = Inr ((blocks @ [map (\<lambda>k. slice (a * size') (a * size' + size') (tm ! (i + k)))
                                    [0..<size']])
        @ map (\<lambda>q. map (\<lambda>k. slice (q * size') (q * size' + size') (tm ! (i + k))) [0..<size'])
            [Suc a..<c])"
    using Suc.hyps(2) lt by (intro Suc.hyps(1)) simp_all
  also have "\<dots> = Inr (blocks
        @ map (\<lambda>q. map (\<lambda>k. slice (q * size') (q * size' + size') (tm ! (i + k))) [0..<size'])
            [a..<c])"
    using lt by (simp add: upt_conv_Cons)
  finally show ?case .
qed

lemma block_rows_closed:
  assumes "0 < size'" "length tm = r * size'" "a \<le> r"
  shows "block_rows tm size' (r * size') (c * size') (a * size') blocks =
     Inr (blocks @ concat (map (\<lambda>p. map (\<lambda>q. map (\<lambda>k. slice (q * size') (q * size' + size')
                                                      (tm ! (p * size' + k))) [0..<size'])
                                        [0..<c])
                            [a..<r]))"
  using assms(3)
proof (induction "r - a" arbitrary: a blocks)
  case 0
  then have "a = r" by simp
  then show ?case by (subst block_rows.simps) simp
next
  case (Suc d)
  then have lt: "a < r" by simp
  then have lt': "a * size' < r * size'" using assms(1) by simp
  have "Suc a * size' \<le> r * size'" using lt by (intro mult_le_mono) simp_all
  then have fit: "a * size' + size' \<le> length tm" using assms(2) by (simp add: add.commute)
  have cols: "block_columns tm size' (c * size') (a * size') 0 blocks =
      Inr (blocks @ map (\<lambda>q. map (\<lambda>k. slice (q * size') (q * size' + size')
                                      (tm ! (a * size' + k))) [0..<size']) [0..<c])"
    using block_columns_closed [OF assms(1) fit, of 0 c blocks] by simp
  have "block_rows tm size' (r * size') (c * size') (a * size') blocks =
      block_rows tm size' (r * size') (c * size') (Suc a * size')
        (blocks @ map (\<lambda>q. map (\<lambda>k. slice (q * size') (q * size' + size')
                                      (tm ! (a * size' + k))) [0..<size']) [0..<c])"
    using assms(1) lt' by (subst block_rows.simps) (simp add: cols add.commute)
  also have "\<dots> = Inr ((blocks @ map (\<lambda>q. map (\<lambda>k. slice (q * size') (q * size' + size')
                                      (tm ! (a * size' + k))) [0..<size']) [0..<c])
      @ concat (map (\<lambda>p. map (\<lambda>q. map (\<lambda>k. slice (q * size') (q * size' + size')
                                                      (tm ! (p * size' + k))) [0..<size'])
                                        [0..<c])
                            [Suc a..<r]))"
    using Suc.hyps(2) lt by (intro Suc.hyps(1)) simp_all
  also have "\<dots> = Inr (blocks
      @ concat (map (\<lambda>p. map (\<lambda>q. map (\<lambda>k. slice (q * size') (q * size' + size')
                                                      (tm ! (p * size' + k))) [0..<size'])
                                        [0..<c])
                            [a..<r]))"
    using lt by (simp add: upt_conv_Cons)
  finally show ?case .
qed

lemma concat_uniform:
  assumes "\<forall>p < r. length (f p) = c"
  shows "length (concat (map f [0..<r])) = r * c"
    and "bi < r \<Longrightarrow> bj < c \<Longrightarrow> concat (map f [0..<r]) ! (bi * c + bj) = f bi ! bj"
  using assms
proof (induction r)
  case 0
  {
    case 1
    show ?case by simp
  next
    case 2
    then show ?case by simp
  }
next
  case (Suc r)
  {
    case 1
    then have "\<forall>p < r. length (f p) = c" by simp
    then have "length (concat (map f [0..<r])) = r * c" by (rule Suc.IH(1))
    then show ?case using 1 by simp
  next
    case 2
    then have all: "\<forall>p < r. length (f p) = c" by simp
    have len: "length (concat (map f [0..<r])) = r * c" using all by (rule Suc.IH(1))
    show ?case
    proof (cases "bi < r")
      case True
      then have "Suc bi * c \<le> r * c" by (intro mult_le_mono) simp_all
      then have "bi * c + bj < r * c" using 2(2) by simp
      then show ?thesis
        using Suc.IH(2) [OF True 2(2) all] len by (simp add: nth_append)
    next
      case False
      then have "bi = r" using 2(1) by simp
      then show ?thesis using len by (simp add: nth_append)
    qed
  }
qed

text \<open>
  Claim C5. For a non-empty rectangular matrix of height \<open>h\<close> and width \<open>w\<close> and a block
  side \<open>size > 0\<close>, \<open>extractBlocks\<close> returns \<open>((h - h mod size) / size) * ((w - w mod size) / size)\<close>
  blocks. The block at position \<open>bi * (w div size) + bj\<close> of the result is the
  \<open>size\<close>-by-\<open>size\<close> tile whose cell \<open>(k, l)\<close> is the matrix cell
  \<open>(bi * size + k, bj * size + l)\<close>: the blocks come in row-major order, no matrix cell is
  used twice, nothing is padded, and every cell used lies inside the trimmed bounds.
\<close>

theorem extractBlocks_tiles:
  fixes mat :: "'a list list"
  assumes ne: "mat \<noteq> []"
    and rect: "\<forall>row \<in> set mat. length row = w"
    and size': "0 < size'"
  shows "\<exists>blocks. extractBlocks mat size' = Inr blocks
     \<and> length blocks
         = ((length mat - length mat mod size') div size') * ((w - w mod size') div size')
     \<and> (\<forall>bi < length mat div size'. \<forall>bj < w div size'.
           length (blocks ! (bi * (w div size') + bj)) = size'
           \<and> (\<forall>k < size'. length (blocks ! (bi * (w div size') + bj) ! k) = size'
                \<and> bi * size' + k < length mat - length mat mod size'
                \<and> (\<forall>l < size'. bj * size' + l < w - w mod size'
                     \<and> blocks ! (bi * (w div size') + bj) ! k ! l
                         = mat ! (bi * size' + k) ! (bj * size' + l))))"
proof -
  let ?h = "length mat"
  let ?r = "?h div size'" and ?c = "w div size'"
  have w0: "length (mat ! 0) = w" using ne rect by (cases mat) auto
  have th: "?h - ?h mod size' = ?r * size'" by (simp add: minus_mod_eq_div_mult)
  have tw: "w - w mod size' = ?c * size'" by (simp add: minus_mod_eq_div_mult)
  let ?tm = "map (slice 0 (?c * size')) (slice 0 (?r * size') mat)"
  have rle: "?r * size' \<le> ?h" and cle: "?c * size' \<le> w" by simp_all
  have ltm: "length ?tm = ?r * size'" using rle by (simp add: slice_def)
  have row: "?tm ! x = take (?c * size') (mat ! x)" if "x < ?r * size'" for x
    using that rle by (simp add: slice_def)
  let ?tile = "\<lambda>p q. map (\<lambda>k. slice (q * size') (q * size' + size') (?tm ! (p * size' + k))) [0..<size']"
  let ?f = "\<lambda>p. map (?tile p) [0..<?c]"
  have run: "extractBlocks mat size' = Inr (concat (map ?f [0..<?r]))"
    using ne size' block_rows_closed [OF size' ltm, of 0 ?c "[]"]
    by (simp add: extractBlocks_def Let_def w0 th tw)
  have unif: "\<forall>p < ?r. length (?f p) = ?c" by simp
  have len: "length (concat (map ?f [0..<?r])) = ?r * ?c"
    using unif by (rule concat_uniform(1))
  have nth: "concat (map ?f [0..<?r]) ! (bi * ?c + bj) = ?tile bi bj"
    if "bi < ?r" "bj < ?c" for bi bj
    using concat_uniform(2) [OF unif that] that by simp
  have inside: "bi * size' + k < ?r * size'" if "bi < ?r" "k < size'" for bi k
  proof -
    have "Suc bi * size' \<le> ?r * size'" using that(1) by (intro mult_le_mono) simp_all
    then show ?thesis using that(2) by simp
  qed
  have insidec: "bj * size' + l < ?c * size'" if "bj < ?c" "l < size'" for bj l
  proof -
    have "Suc bj * size' \<le> ?c * size'" using that(1) by (intro mult_le_mono) simp_all
    then show ?thesis using that(2) by simp
  qed
  have rowlen: "length (mat ! x) = w" if "x < ?h" for x
    using rect that by simp
  have tile_row: "length (?tile bi bj ! k) = size'
      \<and> (\<forall>l < size'. ?tile bi bj ! k ! l = mat ! (bi * size' + k) ! (bj * size' + l))"
    if b: "bi < ?r" "bj < ?c" and k: "k < size'" for bi bj k
  proof -
    have x: "bi * size' + k < ?r * size'" using b(1) k by (rule inside)
    then have xh: "bi * size' + k < ?h" using rle by (rule less_le_trans)
    have "Suc bj * size' \<le> ?c * size'" using b(2) by (intro mult_le_mono) simp_all
    then have fit: "bj * size' + size' \<le> ?c * size'" by (simp add: add.commute)
    have "?tile bi bj ! k = slice (bj * size') (bj * size' + size') (?tm ! (bi * size' + k))"
      using k by simp
    also have "\<dots> = slice (bj * size') (bj * size' + size')
        (take (?c * size') (mat ! (bi * size' + k)))"
      by (simp only: row [OF x])
    finally have tk: "?tile bi bj ! k
        = take size' (drop (bj * size') (take (?c * size') (mat ! (bi * size' + k))))"
      by (simp add: slice_def)
    have l1: "length (?tile bi bj ! k) = size'"
      unfolding tk using fit cle rowlen [OF xh] by simp
    have tl: "length (take (?c * size') (mat ! (bi * size' + k))) = ?c * size'"
      using cle rowlen [OF xh] by simp
    have l2: "?tile bi bj ! k ! l = mat ! (bi * size' + k) ! (bj * size' + l)" if "l < size'" for l
    proof -
      have in_row: "bj * size' + l < ?c * size'" using b(2) that by (rule insidec)
      then have "bj * size' \<le> ?c * size'" by linarith
      then have "bj * size' \<le> length (take (?c * size') (mat ! (bi * size' + k)))"
        by (simp only: tl)
      then have "drop (bj * size') (take (?c * size') (mat ! (bi * size' + k))) ! l
          = take (?c * size') (mat ! (bi * size' + k)) ! (bj * size' + l)"
        by (rule nth_drop)
      then show ?thesis unfolding tk using that in_row by simp
    qed
    show ?thesis using l1 l2 by blast
  qed
  show ?thesis
  proof (intro exI conjI allI impI)
    show "extractBlocks mat size' = Inr (concat (map ?f [0..<?r]))" by (rule run)
    show "length (concat (map ?f [0..<?r])) = ((?h - ?h mod size') div size') * ((w - w mod size') div size')"
      using size' by (simp add: len th tw)
  next
    fix bi bj assume b: "bi < ?r" "bj < ?c"
    show "length (concat (map ?f [0..<?r]) ! (bi * ?c + bj)) = size'"
      by (simp add: nth [OF b])
    fix k assume k: "k < size'"
    show "length (concat (map ?f [0..<?r]) ! (bi * ?c + bj) ! k) = size'"
      unfolding nth [OF b] using tile_row [OF b k] by blast
    show "bi * size' + k < ?h - ?h mod size'"
      unfolding th using b(1) k by (rule inside)
    fix l assume l: "l < size'"
    show "bj * size' + l < w - w mod size'"
      unfolding tw using b(2) l by (rule insidec)
    show "concat (map ?f [0..<?r]) ! (bi * ?c + bj) ! k ! l = mat ! (bi * size' + k) ! (bj * size' + l)"
      unfolding nth [OF b] using tile_row [OF b k] l by blast
  qed
qed

theorem extractBlocks_tiles_witness:
  "extractBlocks [[1, 2, 3, 4, 5], [6, 7, 8, 9, 10], [11, 12, 13, 14, 15 :: nat]] 2
     = Inr [[[1, 2], [6, 7]], [[3, 4], [8, 9]]]
   \<and> ((length [[1, 2, 3, 4, 5], [6, 7, 8, 9, 10], [11, 12, 13, 14, 15 :: nat]]
         - length [[1, 2, 3, 4, 5], [6, 7, 8, 9, 10], [11, 12, 13, 14, 15 :: nat]] mod 2) div 2)
       * ((5 - 5 mod 2) div 2) = (2 :: nat)"
proof -
  let ?mat = "[[1, 2, 3, 4, 5], [6, 7, 8, 9, 10], [11, 12, 13, 14, 15 :: nat]]"
  have ne: "?mat \<noteq> []" by simp
  have rect: "\<forall>row \<in> set ?mat. length row = 5" by simp
  have size': "0 < (2 :: nat)" by simp
  have run: "extractBlocks ?mat 2 = Inr [[[1, 2], [6, 7]], [[3, 4], [8, 9]]]" by code_simp
  obtain blocks where "extractBlocks ?mat 2 = Inr blocks"
    "length blocks = ((length ?mat - length ?mat mod 2) div 2) * ((5 - 5 mod 2) div 2)"
    using extractBlocks_tiles [OF ne rect size'] by blast
  then show ?thesis using run by simp
qed

section \<open>Properties of fft1D and I\_mat\<close>

lemma map_err_fails: "x \<in> set xs \<Longrightarrow> isl (f x) \<Longrightarrow> isl (map_err f xs)"
  by (induction xs) (auto split: sum.splits)

lemma map_err_ok:
  "\<forall>x \<in> set xs. \<not> isl (f x) \<Longrightarrow>
   \<exists>ys. map_err f xs = Inr ys \<and> length ys = length xs \<and> (\<forall>i < length xs. f (xs ! i) = Inr (ys ! i))"
proof (induction xs)
  case Nil
  show ?case by simp
next
  case (Cons x xs)
  then obtain ys where ys: "map_err f xs = Inr ys" "length ys = length xs"
    "\<forall>i < length xs. f (xs ! i) = Inr (ys ! i)"
    by auto
  obtain y where y: "f x = Inr y" using Cons.prems by (cases "f x") auto
  have "\<forall>i < length (x # xs). f ((x # xs) ! i) = Inr ((y # ys) ! i)"
    using y ys(3) by (auto simp: nth_Cons split: nat.splits)
  then show ?case using y ys(1,2) by simp
qed

lemma butterflies_error:
  "butterflies n ev od ks acc = Inl err \<Longrightarrow> err = TypeError"
  by (induction ks arbitrary: acc) (auto simp: Let_def split: if_splits)

lemma butterflies_ok:
  "butterflies n ev od ks acc = Inr out \<Longrightarrow>
   (\<forall>k \<in> set ks. k < length od \<and> k < length ev)
   \<and> length (fst out) = length (fst acc) + length ks
   \<and> length (snd out) = length (snd acc) + length ks"
proof (induction ks arbitrary: acc)
  case Nil
  then show ?case by simp
next
  case (Cons k ks)
  from Cons.prems have k: "k < length od" "k < length ev"
    by (auto split: if_splits)
  let ?acc = "(fst acc @ [ev ! k + exponent n k * (od ! k)],
               snd acc @ [ev ! k - exponent n k * (od ! k)])"
  have "butterflies n ev od ks ?acc = Inr out"
    using Cons.prems k by (simp add: Let_def)
  then show ?case using Cons.IH [of ?acc] k by simp
qed

lemma butterflies_in_range:
  "\<forall>k \<in> set ks. k < length od \<and> k < length ev \<Longrightarrow> \<exists>out. butterflies n ev od ks acc = Inr out"
  by (induction ks arbitrary: acc) (simp_all add: Let_def)

lemma fft1D_one: "length input = 1 \<Longrightarrow> fft1D input = Inr [input ! 0]"
  by (subst fft1D.simps) simp

lemma fft1D_empty: "fft1D [] = Inl RangeError"
  by (subst fft1D.simps) simp

lemma fft1D_step:
  "2 \<le> length input \<Longrightarrow>
   fft1D input =
     (case fft1D (evens input) of
        Inl e \<Rightarrow> Inl e
      | Inr evenTransformed \<Rightarrow>
          (case fft1D (odds input) of
             Inl e \<Rightarrow> Inl e
           | Inr oddTransformed \<Rightarrow>
               (case butterflies (length input) evenTransformed oddTransformed
                       [0..<(length input + 1) div 2] ([], []) of
                  Inl e \<Rightarrow> Inl e
                | Inr out \<Rightarrow> Inr (fst out @ snd out))))"
  by (subst fft1D.simps) auto

lemma fft1D_returns:
  assumes two: "2 \<le> length input" and ret: "fft1D input = Inr out"
  obtains ev od res where "fft1D (evens input) = Inr ev" "fft1D (odds input) = Inr od"
    "butterflies (length input) ev od [0..<(length input + 1) div 2] ([], []) = Inr res"
    "out = fst res @ snd res"
proof -
  have eq: "(case fft1D (evens input) of
        Inl e \<Rightarrow> Inl e
      | Inr evenTransformed \<Rightarrow>
          (case fft1D (odds input) of
             Inl e \<Rightarrow> Inl e
           | Inr oddTransformed \<Rightarrow>
               (case butterflies (length input) evenTransformed oddTransformed
                       [0..<(length input + 1) div 2] ([], []) of
                  Inl e \<Rightarrow> Inl e
                | Inr out \<Rightarrow> Inr (fst out @ snd out)))) = Inr out"
    using ret by (simp only: fft1D_step [OF two])
  obtain ev where ev: "fft1D (evens input) = Inr ev"
    using eq by (cases "fft1D (evens input)") simp_all
  have eq2: "(case fft1D (odds input) of
             Inl e \<Rightarrow> Inl e
           | Inr oddTransformed \<Rightarrow>
               (case butterflies (length input) ev oddTransformed
                       [0..<(length input + 1) div 2] ([], []) of
                  Inl e \<Rightarrow> Inl e
                | Inr out \<Rightarrow> Inr (fst out @ snd out))) = Inr out"
    using eq by (simp only: ev sum.case)
  obtain od where od: "fft1D (odds input) = Inr od"
    using eq2 by (cases "fft1D (odds input)") simp_all
  have eq3: "(case butterflies (length input) ev od
                       [0..<(length input + 1) div 2] ([], []) of
                  Inl e \<Rightarrow> Inl e
                | Inr out \<Rightarrow> Inr (fst out @ snd out)) = Inr out"
    using eq2 by (simp only: od sum.case)
  obtain res where res:
    "butterflies (length input) ev od [0..<(length input + 1) div 2] ([], []) = Inr res"
    using eq3
    by (cases "butterflies (length input) ev od [0..<(length input + 1) div 2] ([], [])")
      simp_all
  have "out = fst res @ snd res" using eq3 by (simp only: res sum.case) simp
  then show ?thesis using that ev od res by blast
qed

text \<open>What \<open>fft1D\<close> returns is as long as its input.\<close>

lemma fft1D_length: "fft1D input = Inr out \<Longrightarrow> length out = length input"
proof (induction "length input" arbitrary: input out rule: less_induct)
  case less
  show ?case
  proof (cases "length input = 1")
    case True
    then show ?thesis using less.prems by (auto simp: fft1D_one)
  next
    case False
    have "input \<noteq> []" using less.prems by (auto simp: fft1D_empty)
    then have "length input \<noteq> 0" by simp
    then have two: "2 \<le> length input" using False by linarith
    obtain ev od res where
      ev: "fft1D (evens input) = Inr ev" and od: "fft1D (odds input) = Inr od"
      and res: "butterflies (length input) ev od [0..<(length input + 1) div 2] ([], []) = Inr res"
      and out: "out = fst res @ snd res"
      using two less.prems by (rule fft1D_returns)
    have "length (odds input) < length input" using two by (simp add: length_odds)
    then have "length od = length (odds input)" using od by (rule less.hyps)
    then have lod: "length od = length input div 2" by (simp add: length_odds)
    have rng: "\<forall>k \<in> set [0..<(length input + 1) div 2]. k < length od"
      and l1: "length (fst res) = (length input + 1) div 2"
      and l2: "length (snd res) = (length input + 1) div 2"
      using butterflies_ok [OF res] by auto
    have "(length input + 1) div 2 \<le> length input div 2"
    proof (rule ccontr)
      assume "\<not> (length input + 1) div 2 \<le> length input div 2"
      then have "length input div 2 \<in> set [0..<(length input + 1) div 2]" by simp
      then have "length input div 2 < length od" using rng by blast
      then show False using lod by simp
    qed
    then have "(length input + 1) div 2 + (length input + 1) div 2 = length input" by arith
    then show ?thesis using out l1 l2 by simp
  qed
qed

text \<open>On a non-empty input the only error of \<open>fft1D\<close> is the \<open>TypeError\<close>.\<close>

lemma fft1D_error: "input \<noteq> [] \<Longrightarrow> fft1D input = Inl e \<Longrightarrow> e = TypeError"
proof (induction "length input" arbitrary: input e rule: less_induct)
  case less
  have "length input \<noteq> 1" using less.prems(2) by (auto simp: fft1D_one)
  moreover have "length input \<noteq> 0" using less.prems(1) by simp
  ultimately have two: "2 \<le> length input" by linarith
  have ne: "evens input \<noteq> []" "odds input \<noteq> []"
    using two length_evens [of input] length_odds [of input] by auto
  have lt: "length (evens input) < length input" "length (odds input) < length input"
    using two by (auto simp: length_evens length_odds)
  have IH1: "fft1D (evens input) = Inl e' \<Longrightarrow> e' = TypeError" for e'
    using lt(1) ne(1) by (rule less.hyps)
  have IH2: "fft1D (odds input) = Inl e' \<Longrightarrow> e' = TypeError" for e'
    using lt(2) ne(2) by (rule less.hyps)
  have "(case fft1D (evens input) of
        Inl e \<Rightarrow> Inl e
      | Inr evenTransformed \<Rightarrow>
          (case fft1D (odds input) of
             Inl e \<Rightarrow> Inl e
           | Inr oddTransformed \<Rightarrow>
               (case butterflies (length input) evenTransformed oddTransformed
                       [0..<(length input + 1) div 2] ([], []) of
                  Inl e \<Rightarrow> Inl e
                | Inr out \<Rightarrow> Inr (fst out @ snd out)))) = Inl e"
    using less.prems(2) by (simp only: fft1D_step [OF two])
  note eq = this
  show ?case
  proof (cases "fft1D (evens input)")
    case (Inl e1)
    then show ?thesis using eq IH1 by simp
  next
    case ev: (Inr ev)
    show ?thesis
    proof (cases "fft1D (odds input)")
      case (Inl e2)
      then show ?thesis using eq ev IH2 by simp
    next
      case od: (Inr od)
      show ?thesis
      proof (cases "butterflies (length input) ev od [0..<(length input + 1) div 2] ([], [])")
        case (Inl e3)
        then have "e3 = TypeError" by (rule butterflies_error)
        then show ?thesis using eq ev od Inl by (simp only: sum.case) simp
      next
        case (Inr res)
        then show ?thesis using eq ev od by (simp only: sum.case) simp
      qed
    qed
  qed
qed

lemma half_not_power_of_two:
  assumes "\<not> (\<exists>m. n = (2 :: nat) ^ m)" "even n"
  shows "\<not> (\<exists>m. n div 2 = (2 :: nat) ^ m)"
proof
  assume "\<exists>m. n div 2 = (2 :: nat) ^ m"
  then obtain m where "n div 2 = 2 ^ m" ..
  then have "n = 2 ^ Suc m" using assms(2) by auto
  then show False using assms(1) by blast
qed

text \<open>
  On an input of two or more samples whose number is not a power of two, \<open>fft1D\<close> does
  not return a transform: it throws a \<open>TypeError\<close>.
\<close>

lemma fft1D_not_power_of_two:
  "2 \<le> length input \<Longrightarrow> \<not> (\<exists>m. length input = 2 ^ m) \<Longrightarrow> fft1D input = Inl TypeError"
proof (induction "length input" arbitrary: input rule: less_induct)
  case less
  let ?n = "length input"
  have two: "2 \<le> ?n" by (rule less.prems(1))
  have ne: "evens input \<noteq> []" "odds input \<noteq> []"
    using two length_evens [of input] length_odds [of input] by auto
  show ?case
  proof (cases "even ?n")
    case True
    have lev: "length (evens input) = ?n div 2" using True by (simp add: length_evens)
    have np: "\<not> (\<exists>m. ?n div 2 = 2 ^ m)"
      using less.prems(2) True by (rule half_not_power_of_two)
    have "?n div 2 \<noteq> 1" using np by (metis power_0)
    moreover have "?n div 2 \<noteq> 0" using two by simp
    ultimately have "2 \<le> length (evens input)" using lev by simp
    moreover have "length (evens input) < ?n" using two lev by simp
    ultimately have "fft1D (evens input) = Inl TypeError"
      using np lev by (intro less.hyps) simp_all
    then show ?thesis by (simp add: fft1D_step [OF two])
  next
    case False
    show ?thesis
    proof (cases "fft1D input")
      case (Inl e)
      have "input \<noteq> []" using two by auto
      then have "e = TypeError" using Inl by (rule fft1D_error)
      then show ?thesis using Inl by simp
    next
      case (Inr out)
      then have "length out = ?n" by (rule fft1D_length)
      obtain ev od res where
        "fft1D (evens input) = Inr ev"
        and od: "fft1D (odds input) = Inr od"
        and res: "butterflies ?n ev od [0..<(?n + 1) div 2] ([], []) = Inr res"
        and "out = fst res @ snd res"
        using two Inr by (rule fft1D_returns)
      have "length od = length (odds input)" using od by (rule fft1D_length)
      then have lod: "length od = ?n div 2" by (simp add: length_odds)
      have "?n div 2 \<in> set [0..<(?n + 1) div 2]" using False by auto
      then have "?n div 2 < length od" using butterflies_ok [OF res] by blast
      then show ?thesis using lod by simp
    qed
  qed
qed

text \<open>On a power-of-two number of samples \<open>fft1D\<close> returns as many.\<close>

lemma fft1D_power_of_two:
  "length input = 2 ^ m \<Longrightarrow> \<exists>out. fft1D input = Inr out \<and> length out = length input"
proof (induction m arbitrary: input)
  case 0
  then show ?case by (simp add: fft1D_one)
next
  case (Suc m)
  have two: "2 \<le> length input" using Suc.prems by simp
  have "length (evens input) = 2 ^ m" using Suc.prems by (simp add: length_evens)
  then obtain ev where ev: "fft1D (evens input) = Inr ev" "length ev = 2 ^ m"
    using Suc.IH by fastforce
  have "length (odds input) = 2 ^ m" using Suc.prems by (simp add: length_odds)
  then obtain od where od: "fft1D (odds input) = Inr od" "length od = 2 ^ m"
    using Suc.IH by fastforce
  have "(length input + 1) div 2 = 2 ^ m" using Suc.prems by simp
  then have "\<forall>k \<in> set [0..<(length input + 1) div 2]. k < length od \<and> k < length ev"
    using ev(2) od(2) by simp
  then obtain res where
    res: "butterflies (length input) ev od [0..<(length input + 1) div 2] ([], []) = Inr res"
    using butterflies_in_range by blast
  have "fft1D input = Inr (fst res @ snd res)"
    by (simp only: fft1D_step [OF two] ev(1) od(1) res sum.case)
  then show ?case using fft1D_length by blast
qed

text \<open>A block with a row that \<open>fft1D\<close> rejects makes \<open>I_mat\<close> fail.\<close>

lemma fft2D_bad_row:
  assumes "row \<in> set matrix" "isl (fft1D (map (\<lambda>val. Complex val 0) row))"
  shows "isl (fft2D matrix)"
proof -
  have "matrix \<noteq> []" using assms(1) by auto
  moreover have "isl (map_err (\<lambda>row. fft1D (map (\<lambda>val. Complex val 0) row)) matrix)"
    using assms by (rule map_err_fails)
  ultimately show ?thesis by (auto simp: fft2D_def Let_def split: sum.splits)
qed

lemma block_features_bad_row:
  assumes "row \<in> set mat" "2 \<le> length row" "\<not> (\<exists>m. length row = 2 ^ m)"
  shows "isl (block_features binsize ids blockSize mat)"
proof -
  define mean where "mean = sum_list (concat mat) / real (length (concat mat))"
  define std where
    "std = sqrt (sum_list (map (\<lambda>val. (val - mean)\<^sup>2) (concat mat)) / real (length (concat mat)))"
  let ?norm = "map (map (\<lambda>val. (val - mean) / (std + 1 / 10 ^ 10))) mat"
  let ?row = "map (\<lambda>val. (val - mean) / (std + 1 / 10 ^ 10)) row"
  have "?row \<in> set ?norm" using assms(1) by simp
  moreover have "fft1D (map (\<lambda>val. Complex val 0) ?row) = Inl TypeError"
    using assms(2,3) by (intro fft1D_not_power_of_two) simp_all
  ultimately have "isl (fft2D ?norm)" by (intro fft2D_bad_row [of ?row]) simp_all
  then show ?thesis
    by (auto simp: block_features_def Let_def mean_def std_def split: sum.splits)
qed

lemma I_mat_bad_row:
  assumes "block \<in> set matrices" "row \<in> set block" "2 \<le> length row"
    "\<not> (\<exists>m. length row = 2 ^ m)"
  shows "isl (I_mat matrices binsize ids blockSize)"
proof -
  have "isl (block_features binsize ids blockSize block)"
    using assms(2-4) by (rule block_features_bad_row)
  then have "isl (map_err (block_features binsize ids blockSize) matrices)"
    using assms(1) by (intro map_err_fails)
  then show ?thesis by (auto simp: I_mat_def Let_def split: sum.splits)
qed

section \<open>When I\_mat returns\<close>

lemma for_each_err_ok:
  "\<forall>x \<in> set xs. \<forall>st. \<not> isl (body x st) \<Longrightarrow> \<exists>st'. for_each_err body xs st = Inr st'"
proof (induction xs arbitrary: st)
  case Nil
  show ?case by simp
next
  case (Cons x xs)
  have "\<not> isl (body x st)" using Cons.prems by simp
  then obtain st1 where st1: "body x st = Inr st1" by (cases "body x st") auto
  have "\<forall>x \<in> set xs. \<forall>st. \<not> isl (body x st)" using Cons.prems by simp
  then obtain st' where "for_each_err body xs st1 = Inr st'" using Cons.IH by blast
  then show ?case using st1 by simp
qed

lemma fft_column_ok:
  assumes "length rowTransformed = 2 ^ m" "\<forall>row \<in> set rowTransformed. j < length row"
  shows "\<exists>out. fft_column rowTransformed j = Inr out \<and> length out = 2 ^ m"
proof -
  have "length (map (\<lambda>row. row ! j) rowTransformed) = 2 ^ m" using assms(1) by simp
  then obtain out where "fft1D (map (\<lambda>row. row ! j) rowTransformed) = Inr out"
    "length out = length (map (\<lambda>row. row ! j) rowTransformed)"
    using fft1D_power_of_two by blast
  then show ?thesis using assms by (simp add: fft_column_def list_all_iff)
qed

lemma fft2D_ok:
  assumes len: "length matrix = 2 ^ m" and rows: "\<forall>row \<in> set matrix. length row = 2 ^ m"
  shows "\<exists>res. fft2D matrix = Inr res \<and> length res = 2 ^ m"
proof -
  let ?f = "\<lambda>row. fft1D (map (\<lambda>val. Complex val 0) row)"
  have ne: "matrix \<noteq> []" using len by auto
  then have cols: "length (matrix ! 0) = 2 ^ m" using rows by (cases matrix) auto
  have row_ok: "\<exists>out. ?f row = Inr out \<and> length out = 2 ^ m" if "row \<in> set matrix" for row
  proof -
    have "length (map (\<lambda>val. Complex val 0) row) = 2 ^ m" using rows that by simp
    then show ?thesis using fft1D_power_of_two by fastforce
  qed
  then have "\<forall>row \<in> set matrix. \<not> isl (?f row)" by fastforce
  then obtain rt where rt: "map_err ?f matrix = Inr rt" "length rt = length matrix"
    "\<forall>i < length matrix. ?f (matrix ! i) = Inr (rt ! i)"
    using map_err_ok [of matrix ?f] by blast
  have rt_rows: "\<forall>row \<in> set rt. length row = 2 ^ m"
  proof
    fix row assume "row \<in> set rt"
    then obtain i where i: "i < length rt" "row = rt ! i" by (auto simp: in_set_conv_nth)
    then have "?f (matrix ! i) = Inr row" using rt(2,3) by simp
    moreover have "matrix ! i \<in> set matrix" using i(1) rt(2) by simp
    ultimately show "length row = 2 ^ m" using row_ok by fastforce
  qed
  have "\<forall>j \<in> set [0..<2 ^ m]. \<not> isl (fft_column rt j)"
  proof
    fix j :: nat assume "j \<in> set [0..<2 ^ m]"
    then have "\<forall>row \<in> set rt. j < length row" using rt_rows by simp
    then obtain out where "fft_column rt j = Inr out"
      using fft_column_ok [of rt m j] rt(2) len by auto
    then show "\<not> isl (fft_column rt j)" by simp
  qed
  then obtain ct where ct: "map_err (fft_column rt) [0..<2 ^ m] = Inr ct"
    using map_err_ok [of "[0..<2 ^ m]" "fft_column rt"] by blast
  have "fft2D matrix =
      Inr (map (\<lambda>i. map (\<lambda>j. ct ! j ! i) [0..<2 ^ m]) [0..<length matrix])"
    using ne by (simp add: fft2D_def Let_def rt(1) cols ct)
  then show ?thesis using len by simp
qed

lemma length_fold_shift_cell:
  "length (fold (shift_cell matrix rows cols) ps shifted) = length shifted"
  by (induction ps arbitrary: shifted) (simp_all add: shift_cell_def Let_def)

lemma fftShift_ok:
  "matrix \<noteq> [] \<Longrightarrow> \<exists>shifted. fftShift matrix = Inr shifted \<and> length shifted = length matrix"
  by (simp add: fftShift_def Let_def length_fold_shift_cell)

lemma energies_ok:
  assumes "blockSize \<le> length logMagnitude"
  shows "\<exists>energy. energies blockSize logMagnitude = Inr energy"
  unfolding energies_def
proof (rule for_each_err_ok, intro ballI allI)
  fix p :: "nat \<times> nat" and st :: "real jsnum \<times> real jsnum"
  assume "p \<in> set (concat (map (\<lambda>y. map (\<lambda>x. (y, x)) [0..<blockSize]) [0..<blockSize]))"
  then have "fst p < length logMagnitude" using assms by auto
  then have "\<not> isl (read_magnitude logMagnitude (fst p) (snd p))"
    by (simp add: read_magnitude_def)
  then show "\<not> isl (add_energy blockSize logMagnitude p st)"
    by (auto simp: add_energy_def split: sum.splits)
qed

text \<open>The feature vector has two elements, or three when \<open>ids > 2\<close>; the third is made
  from the mask \<open>midfreq\<close> itself.\<close>

lemma block_features_shape:
  assumes "block_features binsize ids blockSize mat = Inr hs"
  shows "length hs = (if 2 < ids then 3 else 2)"
    and "2 < ids \<Longrightarrow> hs ! 2 = quantize binsize (mask_to_number (midfreq blockSize))"
  using assms by (auto simp: block_features_def Let_def split: sum.splits if_splits)

lemma block_features_ok:
  assumes len: "length mat = 2 ^ m" and rows: "\<forall>row \<in> set mat. length row = 2 ^ m"
    and bs: "blockSize \<le> 2 ^ m"
  shows "\<exists>hs. block_features binsize ids blockSize mat = Inr hs"
proof -
  define mean where "mean = sum_list (concat mat) / real (length (concat mat))"
  define std where
    "std = sqrt (sum_list (map (\<lambda>val. (val - mean)\<^sup>2) (concat mat)) / real (length (concat mat)))"
  let ?norm = "map (map (\<lambda>val. (val - mean) / (std + 1 / 10 ^ 10))) mat"
  have "length ?norm = 2 ^ m" "\<forall>row \<in> set ?norm. length row = 2 ^ m"
    using len rows by auto
  then obtain n_I where n_I: "fft2D ?norm = Inr n_I" "length n_I = 2 ^ m"
    using fft2D_ok by blast
  then have "n_I \<noteq> []" by auto
  then obtain sh where sh: "fftShift n_I = Inr sh" "length sh = length n_I"
    using fftShift_ok by blast
  let ?lm = "map (map (map_option (\<lambda>c. ln (1 + cmod c)))) sh"
  have "blockSize \<le> length ?lm" using bs sh(2) n_I(2) by simp
  then obtain energy where "energies blockSize ?lm = Inr energy"
    using energies_ok by blast
  then show ?thesis
    using n_I(1) sh(1)
    by (simp add: block_features_def Let_def mean_def [symmetric] std_def [symmetric])
qed

lemma I_mat_ok:
  assumes sq: "length matrices = n * n"
    and blocks: "\<forall>mat \<in> set matrices. length mat = 2 ^ m \<and> (\<forall>row \<in> set mat. length row = 2 ^ m)"
    and bs: "blockSize \<le> 2 ^ m"
  shows "\<not> isl (I_mat matrices binsize ids blockSize)"
proof -
  have "\<forall>mat \<in> set matrices. \<not> isl (block_features binsize ids blockSize mat)"
  proof
    fix mat assume "mat \<in> set matrices"
    then obtain hs where "block_features binsize ids blockSize mat = Inr hs"
      using block_features_ok [of mat m blockSize binsize ids] blocks bs by blast
    then show "\<not> isl (block_features binsize ids blockSize mat)" by simp
  qed
  then obtain fs where "map_err (block_features binsize ids blockSize) matrices = Inr fs"
    using map_err_ok [of matrices "block_features binsize ids blockSize"] by blast
  then show ?thesis using sq by (simp add: I_mat_def Let_def)
qed

lemma three_not_power_of_two: "\<not> (\<exists>m. (3 :: nat) = 2 ^ m)"
proof
  assume "\<exists>m. (3 :: nat) = 2 ^ m"
  then obtain m where m: "(3 :: nat) = 2 ^ m" ..
  show False
  proof (cases m)
    case 0
    then show ?thesis using m by simp
  next
    case (Suc k)
    define x :: nat where "x = 2 ^ k"
    have "2 * x = 3" using m Suc by (simp add: x_def)
    then show ?thesis by presburger
  qed
qed

text \<open>
  Claim C8, as amended. Neither \<open>I_mat\<close> nor \<open>fft1D\<close> tests for a power of two and there
  is no configuration error: \<open>fft1D\<close> is applied to whatever length the rows of a block
  have. On a power-of-two number of samples it returns as many; on two or more samples
  whose number is not a power of two it returns no transform but throws a \<open>TypeError\<close>,
  and \<open>I_mat\<close> fails on every list of blocks in which some block has such a row, whatever
  the parameter \<open>blockSize\<close> is.
\<close>

theorem fft1D_power_of_two_only:
  "(length input = 2 ^ m \<longrightarrow> (\<exists>out. fft1D input = Inr out \<and> length out = length input))
   \<and> (2 \<le> length input \<and> \<not> (\<exists>m. length input = 2 ^ m) \<longrightarrow> fft1D input = Inl TypeError)
   \<and> (block \<in> set matrices \<and> row \<in> set block \<and> 2 \<le> length row
        \<and> \<not> (\<exists>m. length row = 2 ^ m)
      \<longrightarrow> isl (I_mat matrices binsize ids blockSize))"
  using fft1D_power_of_two [of input m] fft1D_not_power_of_two [of input]
    I_mat_bad_row [of block matrices row binsize ids blockSize]
  by blast

theorem fft1D_power_of_two_only_witness:
  "fft1D [Complex 1 0, Complex 2 0, Complex 3 0] = Inl TypeError
   \<and> isl (I_mat [[[1, 2, 3], [4, 5, 6], [7, 8, 9]]] 2 2 3)
   \<and> (\<exists>out. fft1D [Complex 1 0, Complex 2 0] = Inr out \<and> length out = 2)"
proof -
  have l3: "length [Complex 1 0, Complex 2 0, Complex 3 0] = 3" by simp
  have a: "fft1D [Complex 1 0, Complex 2 0, Complex 3 0] = Inl TypeError"
    using fft1D_power_of_two_only [of "[Complex 1 0, Complex 2 0, Complex 3 0]"]
      three_not_power_of_two
    unfolding l3 by simp
  have r3: "length [1, 2, 3 :: real] = 3" by simp
  have b: "isl (I_mat [[[1, 2, 3], [4, 5, 6], [7, 8, 9]]] 2 2 3)"
    using fft1D_power_of_two_only [of _ _ "[[1, 2, 3], [4, 5, 6], [7, 8, 9]]"
        "[[[1, 2, 3], [4, 5, 6], [7, 8, 9]]]" "[1, 2, 3]" 2 2 3]
      three_not_power_of_two
    unfolding r3 by simp
  have l2: "length [Complex 1 0, Complex 2 0] = 2 ^ 1" by simp
  obtain out where out: "fft1D [Complex 1 0, Complex 2 0] = Inr out"
    "length out = length [Complex 1 0, Complex 2 0]"
    using fft1D_power_of_two_only [of "[Complex 1 0, Complex 2 0]" 1] l2 by blast
  have "length out = 2" using out(2) by simp
  then have c: "\<exists>out. fft1D [Complex 1 0, Complex 2 0] = Inr out \<and> length out = 2"
    using out(1) by blast
  show ?thesis using a b c by blast
qed

text \<open>
  Claim C8 as stated fails: with one 4-by-4 block and \<open>blockSize = 3\<close>, which is not a
  power of two, \<open>I_mat\<close> does not fail.
\<close>

theorem I_mat_block_size_counterexample:
  "\<not> isl (I_mat [[[1, 2, 3, 4], [5, 6, 7, 8], [9, 10, 11, 12], [13, 14, 15, 16]]] 2 2 3)"
proof (rule I_mat_ok [where n = 1 and m = 2])
  show "length [[[1, 2, 3, 4], [5, 6, 7, 8], [9, 10, 11, 12], [13, 14, 15, 16 :: real]]] = 1 * 1"
    by simp
  show "\<forall>mat \<in> set [[[1, 2, 3, 4], [5, 6, 7, 8], [9, 10, 11, 12], [13, 14, 15, 16 :: real]]].
      length mat = 2 ^ 2 \<and> (\<forall>row \<in> set mat. length row = 2 ^ 2)"
    by simp
  show "(3 :: nat) \<le> 2 ^ 2" by simp
qed

section \<open>The mid-frequency mask\<close>

lemma midfreq_shape:
  "length (midfreq blockSize) = blockSize"
  "y < blockSize \<Longrightarrow> length (midfreq blockSize ! y) = blockSize"
  by (simp_all add: midfreq_def distFromCenter_def)

lemma midfreq_cell_false:
  assumes "y < blockSize" "x < blockSize"
  shows "\<not> midfreq blockSize ! y ! x"
proof -
  have "real blockSize / 4 \<le> real blockSize / (25 / 10)" by simp
  then show ?thesis using assms by (simp add: midfreq_def distFromCenter_def)
qed

lemma mask_to_number_midfreq:
  assumes "0 < blockSize"
  shows "mask_to_number (midfreq blockSize) = NaN"
proof -
  have "midfreq blockSize \<noteq> []" using assms midfreq_shape(1) [of blockSize] by auto
  moreover have "midfreq blockSize \<noteq> [[]]"
  proof
    assume "midfreq blockSize = [[]]"
    then have "length (midfreq blockSize ! 0) = 0" by simp
    then show False using assms midfreq_shape(2) [of 0 blockSize] by simp
  qed
  ultimately show ?thesis by (simp add: mask_to_number_def)
qed

text \<open>
  Claim C7. For every block side \<open>blockSize > 0\<close> the selector
  \<open>dist < blockSize / 4 && dist > blockSize / 2.5\<close> is false at every cell of the block:
  the mask \<open>midfreq\<close> has no true cell. When \<open>ids > 2\<close> the third element of the feature
  vector is made from the mask array, not from an energy sum, and it is \<open>NaN\<close>.
\<close>

theorem midfreq_never_true:
  assumes "0 < blockSize"
  shows "length (midfreq blockSize) = blockSize
     \<and> (\<forall>y < blockSize. length (midfreq blockSize ! y) = blockSize
          \<and> (\<forall>x < blockSize. \<not> midfreq blockSize ! y ! x))
     \<and> (\<forall>mat hs. block_features binsize ids blockSize mat = Inr hs \<and> 2 < ids
          \<longrightarrow> length hs = 3 \<and> hs ! 2 = NaN)"
proof (intro conjI allI impI)
  show "length (midfreq blockSize) = blockSize" by (rule midfreq_shape(1))
next
  fix y assume "y < blockSize"
  then show "length (midfreq blockSize ! y) = blockSize" by (rule midfreq_shape(2))
next
  fix y x assume "y < blockSize" "x < blockSize"
  then show "\<not> midfreq blockSize ! y ! x" by (rule midfreq_cell_false)
next
  fix mat hs assume a: "block_features binsize ids blockSize mat = Inr hs \<and> 2 < ids"
  then show "length hs = 3" using block_features_shape(1) [of binsize ids blockSize mat hs] by simp
next
  fix mat hs assume a: "block_features binsize ids blockSize mat = Inr hs \<and> 2 < ids"
  have "quantize binsize (mask_to_number (midfreq blockSize)) = NaN"
    using assms by (simp add: mask_to_number_midfreq)
  then show "hs ! 2 = NaN"
    using block_features_shape(2) [of binsize ids blockSize mat hs] a by simp
qed

theorem midfreq_never_true_witness:
  "(\<exists>hs. block_features 2 3 1 [[5]] = Inr hs \<and> length hs = 3 \<and> hs ! 2 = NaN)
   \<and> \<not> midfreq 1 ! 0 ! 0"
proof -
  have pos: "0 < (1 :: nat)" by simp
  have "length [[5 :: real]] = 2 ^ 0" "\<forall>row \<in> set [[5 :: real]]. length row = 2 ^ 0"
    "(1 :: nat) \<le> 2 ^ 0"
    by simp_all
  then obtain hs where hs: "block_features 2 3 1 [[5]] = Inr hs"
    using block_features_ok [of "[[5]]" 0 1 2 3] by blast
  have "(2 :: nat) < 3" by simp
  note inst = midfreq_never_true [OF pos, of 2 3]
  have cell: "\<not> midfreq 1 ! 0 ! 0" using inst by blast
  have "block_features 2 3 1 [[5]] = Inr hs \<and> (2 :: nat) < 3" using hs by simp
  then have "length hs = 3 \<and> hs ! 2 = NaN" using inst by blast
  then show ?thesis using hs cell by blast
qed

section \<open>Properties of hash\<close>

subsection \<open>The keys are distinct\<close>

lemma of_char_digit_char: "d < 10 \<Longrightarrow> of_char (digit_char d) = 48 + d"
  by (simp add: digit_char_def)

lemma digit_val_digit_char: "d < 10 \<Longrightarrow> digit_val (digit_char d) = d"
  by (simp add: digit_val_def of_char_digit_char)

lemma digit_char_not_comma:
  assumes "d < 10"
  shows "digit_char d \<noteq> CHR '',''"
proof
  assume "digit_char d = CHR '',''"
  then have "(of_char (digit_char d) :: nat) = of_char CHR '',''" by simp
  then show False using assms by (simp add: of_char_digit_char)
qed

lemma read_nat_snoc: "read_nat (s @ [c]) = 10 * read_nat s + digit_val c"
  by (simp add: read_nat_def)

lemma read_nat_show_nat: "read_nat (show_nat n) = n"
proof (induction n rule: show_nat.induct)
  case (1 n)
  show ?case
  proof (cases "n < 10")
    case True
    then show ?thesis
      by (subst show_nat.simps) (simp add: read_nat_def digit_val_digit_char)
  next
    case False
    have "read_nat (show_nat n) = 10 * read_nat (show_nat (n div 10)) + digit_val (digit_char (n mod 10))"
      using False by (subst show_nat.simps) (simp add: read_nat_snoc)
    also have "\<dots> = 10 * (n div 10) + n mod 10"
      using False "1.IH" by (simp add: digit_val_digit_char)
    finally show ?thesis by simp
  qed
qed

lemma show_nat_inj: "show_nat a = show_nat b \<Longrightarrow> a = b"
  by (metis read_nat_show_nat)

lemma show_nat_no_comma: "CHR '','' \<notin> set (show_nat n)"
proof (induction n rule: show_nat.induct)
  case (1 n)
  show ?case
  proof (cases "n < 10")
    case True
    then show ?thesis
      using digit_char_not_comma [of n] by (subst show_nat.simps) auto
  next
    case False
    have "n mod 10 < 10" by simp
    then have "digit_char (n mod 10) \<noteq> CHR '',''" by (rule digit_char_not_comma)
    then show ?thesis
      using False "1.IH" by (subst show_nat.simps) auto
  qed
qed

lemma split_at_separator:
  "xs @ c # ys = xs' @ c # ys' \<Longrightarrow> c \<notin> set xs \<Longrightarrow> c \<notin> set xs' \<Longrightarrow> xs = xs' \<and> ys = ys'"
proof (induction xs arbitrary: xs')
  case Nil
  then show ?case by (cases xs') auto
next
  case (Cons x xs)
  then show ?case by (cases xs') auto
qed

lemma coord_inj: "coord i j = coord i' j' \<Longrightarrow> i = i' \<and> j = j'"
proof -
  assume "coord i j = coord i' j'"
  then have "show_nat i @ CHR '','' # (show_nat j @ '')'')
      = show_nat i' @ CHR '','' # (show_nat j' @ '')'')"
    by (simp add: coord_def)
  then have "show_nat i = show_nat i' \<and> show_nat j @ '')'' = show_nat j' @ '')''"
    using show_nat_no_comma by (intro split_at_separator) auto
  then show ?thesis by (auto dest: show_nat_inj)
qed

subsection \<open>The memo as an association list\<close>

lemma update_fresh: "k \<notin> fst ` set al \<Longrightarrow> AList.update k v al = al @ [(k, v)]"
  by (induction al) auto

lemma map_entry_last:
  "k \<notin> fst ` set al \<Longrightarrow> AList.map_entry k f (al @ [(k, v)]) = al @ [(k, f v)]"
  by (induction al) auto

lemma map_of_map_inj:
  assumes "\<And>p q. f p = f q \<Longrightarrow> p = q" "p \<in> set ps"
  shows "map_of (map (\<lambda>p. (f p, g p)) ps) (f p) = Some (g p)"
  using assms(2)
proof (induction ps)
  case Nil
  then show ?case by simp
next
  case (Cons q ps)
  then show ?case using assms(1) by auto
qed

lemma for_each_err_append:
  "for_each_err body (xs @ ys) st =
     (case for_each_err body xs st of Inl e \<Rightarrow> Inl e | Inr st' \<Rightarrow> for_each_err body ys st')"
proof (induction xs arbitrary: st)
  case Nil
  show ?case by simp
next
  case (Cons x xs)
  show ?case by (cases "body x st") (simp_all add: Cons.IH)
qed

lemma for_each_err_nested:
  "for_each_err (\<lambda>i. for_each_err (body i) ys) xs st =
     for_each_err (\<lambda>p. body (fst p) (snd p)) (concat (map (\<lambda>i. map (\<lambda>j. (i, j)) ys) xs)) st"
proof (induction xs arbitrary: st)
  case Nil
  show ?case by simp
next
  case (Cons x xs)
  have inner: "for_each_err (\<lambda>p. body (fst p) (snd p)) (map (\<lambda>j. (x, j)) ys) s =
      for_each_err (body x) ys s" for s
  proof (induction ys arbitrary: s)
    case Nil
    show ?case by simp
  next
    case (Cons y ys)
    show ?case by (cases "body x y s") (simp_all add: Cons.IH)
  qed
  show ?case
    by (cases "for_each_err (body x) ys st") (simp_all add: for_each_err_append inner Cons.IH)
qed

subsection \<open>One cell\<close>

text \<open>The loop over the directions appends the tokens of the in-bounds neighbours to the
  entry of the cell, which is the last of the memo, and to the flat list.\<close>

lemma directions_loop:
  assumes block: "block_at blocks i j = Some (blocks ! i ! j)"
    and nb: "\<forall>d \<in> set ds. in_bounds rows cols i j d \<longrightarrow>
        block_at blocks (nat (int i + fst d)) (nat (int j + fst (snd d)))
          = Some (blocks ! nat (int i + fst d) ! nat (int j + fst (snd d)))"
    and fresh: "coord i j \<notin> fst ` set al"
    and memo: "r_memo st = al @ [(coord i j, ts)]"
  shows "for_each_err (visit_direction str ext blocks rows cols i j) ds st =
     Inr \<lparr>r_memo = al @ [(coord i j, ts @ cell_tokens str ext blocks rows cols i j ds)],
          r_hashes = r_hashes st @ cell_tokens str ext blocks rows cols i j ds\<rparr>"
  using nb memo
proof (induction ds arbitrary: st ts)
  case Nil
  then show ?case by (simp add: cell_tokens_def)
next
  case (Cons d ds)
  show ?case
  proof (cases "in_bounds rows cols i j d")
    case False
    then have "visit_direction str ext blocks rows cols i j d st = Inr st"
      by (simp add: visit_direction_def)
    moreover have "cell_tokens str ext blocks rows cols i j (d # ds)
        = cell_tokens str ext blocks rows cols i j ds"
      using False by (simp add: cell_tokens_def)
    ultimately show ?thesis using Cons.IH [of st ts] Cons.prems by simp
  next
    case True
    let ?hsh = "make_token str ext (blocks ! i ! j)
        (blocks ! nat (int i + fst d) ! nat (int j + fst (snd d))) (quadrant rows i j) (snd (snd d))"
    let ?st = "\<lparr>r_memo = al @ [(coord i j, ts @ [?hsh])], r_hashes = r_hashes st @ [?hsh]\<rparr>"
    have nbd: "block_at blocks (nat (int i + fst d)) (nat (int j + fst (snd d)))
        = Some (blocks ! nat (int i + fst d) ! nat (int j + fst (snd d)))"
      using Cons.prems(1) True by simp
    have step: "visit_direction str ext blocks rows cols i j d st = Inr ?st"
      using True
      by (simp add: visit_direction_def block nbd Cons.prems(2) map_entry_last [OF fresh] Let_def)
    have toks: "cell_tokens str ext blocks rows cols i j (d # ds)
        = ?hsh # cell_tokens str ext blocks rows cols i j ds"
      using True by (simp add: cell_tokens_def)
    have "for_each_err (visit_direction str ext blocks rows cols i j) ds ?st =
       Inr \<lparr>r_memo = al @ [(coord i j, (ts @ [?hsh]) @ cell_tokens str ext blocks rows cols i j ds)],
            r_hashes = r_hashes ?st @ cell_tokens str ext blocks rows cols i j ds\<rparr>"
      using Cons.prems(1) by (intro Cons.IH) simp_all
    then show ?thesis by (simp add: step toks)
  qed
qed

lemma hash_cell_entry:
  assumes block: "block_at blocks i j = Some (blocks ! i ! j)"
    and nb: "\<forall>d \<in> set directions. in_bounds rows cols i j d \<longrightarrow>
        block_at blocks (nat (int i + fst d)) (nat (int j + fst (snd d)))
          = Some (blocks ! nat (int i + fst d) ! nat (int j + fst (snd d)))"
    and fresh: "coord i j \<notin> fst ` set (r_memo st)"
  shows "hash_cell str ext blocks rows cols i j st =
     Inr \<lparr>r_memo = r_memo st @ [(coord i j, cell_tokens str ext blocks rows cols i j directions)],
          r_hashes = r_hashes st @ cell_tokens str ext blocks rows cols i j directions\<rparr>"
proof -
  let ?st = "st\<lparr>r_memo := AList.update (coord i j) [] (r_memo st)\<rparr>"
  have "r_memo ?st = r_memo st @ [(coord i j, [])]"
    using fresh by (simp add: update_fresh)
  then have "for_each_err (visit_direction str ext blocks rows cols i j) directions ?st =
     Inr \<lparr>r_memo = r_memo st @ [(coord i j, [] @ cell_tokens str ext blocks rows cols i j directions)],
          r_hashes = r_hashes ?st @ cell_tokens str ext blocks rows cols i j directions\<rparr>"
    using block nb fresh by (intro directions_loop)
  then show ?thesis by (simp add: hash_cell_def)
qed

subsection \<open>The whole grid\<close>

lemma square_block_at:
  assumes "length blocks = n" "\<forall>row \<in> set blocks. length row = n" "a < n" "b < n"
  shows "block_at blocks a b = Some (blocks ! a ! b)"
  using assms by (simp add: block_at_def)

lemma square_neighbour:
  assumes "length blocks = n" "\<forall>row \<in> set blocks. length row = n" "in_bounds n n i j d"
  shows "block_at blocks (nat (int i + fst d)) (nat (int j + fst (snd d)))
     = Some (blocks ! nat (int i + fst d) ! nat (int j + fst (snd d)))"
proof -
  have "nat (int i + fst d) < n" "nat (int j + fst (snd d)) < n"
    using assms(3) by (auto simp: in_bounds_def)
  then show ?thesis using assms(1,2) by (rule square_block_at [rotated 2])
qed

lemma hash_scan:
  assumes sq: "length blocks = n" "\<forall>row \<in> set blocks. length row = n"
    and order: "scan_order n n = ps @ qs"
    and memo: "r_memo st = map (\<lambda>p. (coord (fst p) (snd p),
                 cell_tokens str ext blocks n n (fst p) (snd p) directions)) ps"
  shows "\<exists>res. for_each_err (\<lambda>p. hash_cell str ext blocks n n (fst p) (snd p)) qs st = Inr res
     \<and> r_memo res = map (\<lambda>p. (coord (fst p) (snd p),
                 cell_tokens str ext blocks n n (fst p) (snd p) directions)) (ps @ qs)"
  using order memo
proof (induction qs arbitrary: ps st)
  case Nil
  then show ?case by simp
next
  case (Cons q qs)
  have dist: "distinct (ps @ q # qs)"
    using distinct_scan_order [of n n] Cons.prems(1) by simp
  have "q \<in> set (scan_order n n)" using Cons.prems(1) by simp
  then have q: "fst q < n" "snd q < n" by (auto simp: set_scan_order)
  have fresh: "coord (fst q) (snd q) \<notin> fst ` set (r_memo st)"
  proof
    assume "coord (fst q) (snd q) \<in> fst ` set (r_memo st)"
    then obtain p where p: "p \<in> set ps" "coord (fst p) (snd p) = coord (fst q) (snd q)"
      unfolding Cons.prems(2) by auto
    then have "p = q" using coord_inj [of "fst p" "snd p" "fst q" "snd q"] by (simp add: prod_eq_iff)
    then show False using p(1) dist by simp
  qed
  let ?toks = "cell_tokens str ext blocks n n (fst q) (snd q) directions"
  let ?st = "\<lparr>r_memo = r_memo st @ [(coord (fst q) (snd q), ?toks)],
              r_hashes = r_hashes st @ ?toks\<rparr>"
  have step: "hash_cell str ext blocks n n (fst q) (snd q) st = Inr ?st"
  proof (rule hash_cell_entry)
    show "block_at blocks (fst q) (snd q) = Some (blocks ! fst q ! snd q)"
      using sq q by (rule square_block_at)
    show "\<forall>d \<in> set directions. in_bounds n n (fst q) (snd q) d \<longrightarrow>
        block_at blocks (nat (int (fst q) + fst d)) (nat (int (snd q) + fst (snd d)))
          = Some (blocks ! nat (int (fst q) + fst d) ! nat (int (snd q) + fst (snd d)))"
      using sq by (auto intro: square_neighbour)
    show "coord (fst q) (snd q) \<notin> fst ` set (r_memo st)" by (rule fresh)
  qed
  have "\<exists>res. for_each_err (\<lambda>p. hash_cell str ext blocks n n (fst p) (snd p)) qs ?st = Inr res
     \<and> r_memo res = map (\<lambda>p. (coord (fst p) (snd p),
                 cell_tokens str ext blocks n n (fst p) (snd p) directions)) ((ps @ [q]) @ qs)"
    using Cons.prems by (intro Cons.IH) simp_all
  then show ?case by (simp add: step)
qed

text \<open>On a square grid \<open>hash\<close> returns, and its memo has one entry per coordinate, in
  scanning order, holding the tokens of the in-bounds neighbours.\<close>

lemma hash_memo:
  assumes sq: "length blocks = n" "\<forall>row \<in> set blocks. length row = n"
  shows "\<exists>res. hash str blocks ext = Inr res
     \<and> r_memo res = map (\<lambda>p. (coord (fst p) (snd p),
                 cell_tokens str ext blocks n n (fst p) (snd p) directions)) (scan_order n n)"
proof -
  have cols: "(if blocks = [] then 0 else length (blocks ! 0)) = n"
    using sq by (cases blocks) auto
  have "\<exists>res. for_each_err (\<lambda>p. hash_cell str ext blocks n n (fst p) (snd p)) (scan_order n n)
          \<lparr>r_memo = [], r_hashes = []\<rparr> = Inr res
     \<and> r_memo res = map (\<lambda>p. (coord (fst p) (snd p),
                 cell_tokens str ext blocks n n (fst p) (snd p) directions)) ([] @ scan_order n n)"
    using sq by (intro hash_scan) simp_all
  then show ?thesis
    by (simp add: hash_def Let_def sq(1) cols for_each_err_nested scan_order_def)
qed

subsection \<open>Counting the neighbours\<close>

lemma count_in_bounds:
  assumes n: "3 \<le> n" and i: "i < n" and j: "j < n"
  shows "length (filter (in_bounds n n i j) directions) =
     (if (i = 0 \<or> i = n - 1) \<and> (j = 0 \<or> j = n - 1) then 3
      else if i = 0 \<or> i = n - 1 \<or> j = 0 \<or> j = n - 1 then 5
      else 8)"
proof -
  consider "i = 0" | "i = n - 1" | "0 < i" "i < n - 1" using i by linarith
  then show ?thesis
  proof cases
    case 1
    consider "j = 0" | "j = n - 1" | "0 < j" "j < n - 1" using j by linarith
    then show ?thesis
      using 1 n by cases (auto simp: directions_def in_bounds_def)
  next
    case 2
    consider "j = 0" | "j = n - 1" | "0 < j" "j < n - 1" using j by linarith
    then show ?thesis
      using 2 n by cases (auto simp: directions_def in_bounds_def)
  next
    case 3
    consider "j = 0" | "j = n - 1" | "0 < j" "j < n - 1" using j by linarith
    then show ?thesis
      using 3 n by cases (auto simp: directions_def in_bounds_def)
  qed
qed

text \<open>
  Claim C6, as amended. For a square feature grid of side \<open>n \<ge> 3\<close> and every coordinate
  \<open>(i, j)\<close>, \<open>hash\<close> returns and the number of tokens in \<open>memo["(i,j)"]\<close> is the number of
  the 8 neighbour offsets that land inside the grid: 3 for the four corner cells, 5 for
  the other border cells and 8 for the interior cells.
\<close>

theorem hash_token_count:
  assumes n: "3 \<le> n"
    and sq: "length blocks = n" "\<forall>row \<in> set blocks. length row = n"
    and ij: "i < n" "j < n"
  shows "\<exists>res toks. hash str blocks ext = Inr res
     \<and> map_of (r_memo res) (coord i j) = Some toks
     \<and> length toks = length (filter (in_bounds n n i j) directions)
     \<and> length toks =
         (if (i = 0 \<or> i = n - 1) \<and> (j = 0 \<or> j = n - 1) then 3
          else if i = 0 \<or> i = n - 1 \<or> j = 0 \<or> j = n - 1 then 5
          else 8)"
proof -
  let ?key = "\<lambda>p :: nat \<times> nat. coord (fst p) (snd p)"
  let ?val = "\<lambda>p :: nat \<times> nat. cell_tokens str ext blocks n n (fst p) (snd p) directions"
  obtain res where res: "hash str blocks ext = Inr res"
    "r_memo res = map (\<lambda>p. (?key p, ?val p)) (scan_order n n)"
    using hash_memo [OF sq, of str ext] by blast
  have inj: "?key p = ?key q \<Longrightarrow> p = q" for p q
    using coord_inj [of "fst p" "snd p" "fst q" "snd q"] by (simp add: prod_eq_iff)
  have mem: "(i, j) \<in> set (scan_order n n)" using ij by (simp add: set_scan_order)
  have "map_of (map (\<lambda>p. (?key p, ?val p)) (scan_order n n)) (?key (i, j)) = Some (?val (i, j))"
    using inj mem by (rule map_of_map_inj)
  then have look: "map_of (r_memo res) (coord i j)
      = Some (cell_tokens str ext blocks n n i j directions)"
    by (simp add: res(2))
  have len: "length (cell_tokens str ext blocks n n i j directions)
      = length (filter (in_bounds n n i j) directions)"
    by (simp add: cell_tokens_def)
  show ?thesis
    using res(1) look len count_in_bounds [OF n ij] by metis
qed

theorem hash_token_count_witness:
  "\<exists>res toks.
     hash show_int [[[2, 0], [2, 2], [4, 0]], [[0, 0], [2, 4], [0, 2]], [[6, 0], [2, 2], [0, 0]]] True
       = Inr res
     \<and> map_of (r_memo res) (coord 0 1) = Some toks \<and> length toks = 5"
proof -
  let ?blocks = "[[[2, 0], [2, 2], [4, 0]], [[0, 0], [2, 4], [0, 2]], [[6, 0], [2, 2], [0, 0 :: int]]]"
  have n: "(3 :: nat) \<le> 3" and ij: "(0 :: nat) < 3" "(1 :: nat) < 3" by simp_all
  have sq: "length ?blocks = 3" "\<forall>row \<in> set ?blocks. length row = 3" by simp_all
  obtain res toks where "hash show_int ?blocks True = Inr res"
    "map_of (r_memo res) (coord 0 1) = Some toks"
    "length toks = (if ((0 :: nat) = 0 \<or> (0 :: nat) = 3 - 1) \<and> ((1 :: nat) = 0 \<or> (1 :: nat) = 3 - 1)
        then 3 else if (0 :: nat) = 0 \<or> (0 :: nat) = 3 - 1 \<or> (1 :: nat) = 0 \<or> (1 :: nat) = 3 - 1
        then 5 else 8)"
    using hash_token_count [OF n sq ij, of show_int True] by blast
  then show ?thesis by auto
qed

text \<open>
  Claim C6 as stated fails at the corners and on the border: in a 3-by-3 grid the memo
  holds 3 tokens, not 4, for each corner and 5, not 6, for each other border cell.
\<close>

theorem hash_corner_counterexample:
  "map_sum id (\<lambda>res. map (\<lambda>entry. (fst entry, length (snd entry))) (r_memo res))
     (hash show_int
        [[[2, 0], [2, 2], [4, 0]], [[0, 0], [2, 4], [0, 2]], [[6, 0], [2, 2], [0, 0]]] True)
   = Inr [(''(0,0)'', 3), (''(0,1)'', 5), (''(0,2)'', 3),
          (''(1,0)'', 5), (''(1,1)'', 8), (''(1,2)'', 5),
          (''(2,0)'', 3), (''(2,1)'', 5), (''(2,2)'', 3)]"
  by code_simp

end
